theory Spec2Isabelle
  imports Main
begin

section \<open>Strings of the Python runtime\<close>

text \<open>
  A Python \<open>str\<close> is a sequence of code points. It is modelled as a \<open>string\<close> whose
  characters are read as the code points 0 to 255, so \<open>length\<close> counts what Python's
  \<open>len\<close> counts on that range. The two character classes below follow the tables of
  \<open>str.isspace\<close> and \<open>str.isalpha\<close> on these code points.
\<close>

definition is_space :: "char \<Rightarrow> bool" where
  "is_space c =
     (let n = (of_char c :: nat)
      in (9 \<le> n \<and> n \<le> 13) \<or> (28 \<le> n \<and> n \<le> 32) \<or> n = 133 \<or> n = 160)"

definition is_alpha :: "char \<Rightarrow> bool" where
  "is_alpha c =
     (let n = (of_char c :: nat)
      in (65 \<le> n \<and> n \<le> 90) \<or> (97 \<le> n \<and> n \<le> 122) \<or> n = 170 \<or> n = 181 \<or> n = 186
         \<or> (192 \<le> n \<and> n \<le> 214) \<or> (216 \<le> n \<and> n \<le> 246) \<or> (248 \<le> n \<and> n \<le> 255))"

text \<open>The character class \<open>[.!?]\<close> of the regular expression both filters split on.\<close>

definition is_terminator :: "char \<Rightarrow> bool" where
  "is_terminator c = (c = CHR ''.'' \<or> c = CHR ''!'' \<or> c = CHR ''?'')"

text \<open>\<open>s.strip()\<close>: whitespace removed at both ends.\<close>

definition py_strip :: "string \<Rightarrow> string" where
  "py_strip s = rev (dropWhile is_space (rev (dropWhile is_space s)))"

text \<open>\<open>s.split()\<close>: the maximal runs of non-whitespace characters, in order.\<close>

fun py_split :: "string \<Rightarrow> string list" where
  "py_split [] = []"
| "py_split [c] = (if is_space c then [] else [[c]])"
| "py_split (c # d # cs) =
     (if is_space c then py_split (d # cs)
      else if is_space d then [c] # py_split (d # cs)
      else (case py_split (d # cs) of [] \<Rightarrow> [[c]] | w # ws \<Rightarrow> (c # w) # ws))"

text \<open>\<open>s.isalpha()\<close>: at least one character, and all of them alphabetic.\<close>

definition py_isalpha :: "string \<Rightarrow> bool" where
  "py_isalpha s = (s \<noteq> [] \<and> list_all is_alpha s)"

text \<open>\<open>sep.join(ws)\<close>.\<close>

fun py_join :: "string \<Rightarrow> string list \<Rightarrow> string" where
  "py_join sep [] = []"
| "py_join sep [w] = w"
| "py_join sep (w # v # ws) = w @ sep @ py_join sep (v # ws)"

text \<open>\<open>text.startswith(p)\<close>.\<close>

definition py_startswith :: "string \<Rightarrow> string \<Rightarrow> bool" where
  "py_startswith text p = (take (length p) text = p)"

text \<open>
  \<open>re.split(r'[.!?]+', text)\<close>: the pieces of \<open>text\<close> between the maximal runs of
  terminators. The result is never empty; a text that starts (ends) with a terminator
  has the empty string as its first (last) piece.
\<close>

fun re_split :: "string \<Rightarrow> string list" where
  "re_split [] = [[]]"
| "re_split [c] = (if is_terminator c then [[], []] else [[c]])"
| "re_split (c # d # cs) =
     (if is_terminator c then
        (if is_terminator d then re_split (d # cs) else [] # re_split (d # cs))
      else (case re_split (d # cs) of [] \<Rightarrow> [[c]] | s # ss \<Rightarrow> (c # s) # ss))"

section \<open>model_utils.py: the candidate filter of single-sentence mode\<close>

text \<open>
  Lines 53 to 55 of \<open>clean_generated_text\<close>: the prompt is cut off (and the rest
  trimmed) when the text starts with it, and the text is left as it is otherwise.
\<close>

definition strip_prompt :: "string \<Rightarrow> string \<Rightarrow> string" where
  "strip_prompt text input_text =
     (if py_startswith text input_text
      then py_strip (drop (length input_text) text) else text)"

definition clean_generated_text :: "string \<Rightarrow> string \<Rightarrow> string" where
  "clean_generated_text text0 input_text =
     (let text = strip_prompt text0 input_text;
          sentences = re_split text
      in case sentences of
           [] \<Rightarrow> py_strip text
         | s0 # _ \<Rightarrow>
             if py_strip s0 \<noteq> [] then
               (let clean_sentence = py_strip s0;
                    words = py_split clean_sentence
                in if words \<noteq> [] then
                     py_join '' ''
                       (if length (last words) < 2 \<or> \<not> py_isalpha (last words)
                        then butlast words else words)
                   else py_strip text)
             else py_strip text)"

section \<open>model_utils.py: input validation\<close>

definition validate_input :: "string \<Rightarrow> bool \<times> string" where
  "validate_input text =
     (if text = [] \<or> py_strip text = [] then (False, ''Input text cannot be empty'')
      else if length (py_strip text) < 3
        then (False, ''Input text is too short (minimum 3 characters)'')
      else if length (py_strip text) > 200
        then (False, ''Input text is too long (maximum 200 characters)'')
      else (True, ''''))"


section \<open>The language model and its tokenizer\<close>

text \<open>
  The pretrained model and the tokenizer are libraries outside the repository. They are
  modelled by what the orchestrators observe: every call either raises or returns.
  Sampling is stochastic, so \<open>generate\<close> takes the number of the call within the request
  (standing for the state of the random generator); the sampling parameters are the same
  at every call of a request and are part of the function.
\<close>

datatype exn = AttributeError | Exception string

type_synonym token_ids = "nat list"

record tokenizer =
  encode :: "string \<Rightarrow> exn + token_ids"
  decode :: "token_ids \<Rightarrow> exn + string"
  eos_token :: string
  pad_token :: "string option"

record lm =
  generate :: "nat \<Rightarrow> token_ids \<Rightarrow> exn + token_ids"

text \<open>
  One raw generation attempt, as both loops make it: \<open>model.generate\<close>, then
  \<open>tokenizer.decode\<close> of its output.
\<close>

definition raw_attempt :: "tokenizer \<Rightarrow> lm \<Rightarrow> token_ids \<Rightarrow> nat \<Rightarrow> exn + string" where
  "raw_attempt tok m input_ids i =
     (case generate m i input_ids of
        Inl e \<Rightarrow> Inl e
      | Inr outputs \<Rightarrow> decode tok outputs)"

text \<open>\<open>xs[:n]\<close> for a Python integer \<open>n\<close>: a negative \<open>n\<close> counts from the end.\<close>

definition py_take :: "int \<Rightarrow> 'a list \<Rightarrow> 'a list" where
  "py_take n xs = (if 0 \<le> n then take (nat n) xs else take (length xs - nat (- n)) xs)"

section \<open>model_utils.py: NextSentencePredictor\<close>

record predictor =
  model_name :: string
  model :: "lm option"
  tokenizer :: "tokenizer option"

text \<open>The two \<open>from_pretrained\<close> calls of \<open>load_model\<close>, each of which may raise.\<close>

record hub =
  tokenizer_from_pretrained :: "string \<Rightarrow> exn + tokenizer"
  model_from_pretrained :: "string \<Rightarrow> exn + lm"

text \<open>
  \<open>load_model\<close> returns its value (or the exception that leaves it) and the updated
  object. The tokenizer is assigned before the model is loaded, so a failure of the
  second call leaves the tokenizer set and the model \<open>None\<close>.
\<close>

definition load_model :: "hub \<Rightarrow> predictor \<Rightarrow> (exn + bool) \<times> predictor" where
  "load_model h self =
     (case tokenizer_from_pretrained h (model_name self) of
        Inl e \<Rightarrow> (Inr False, self)
      | Inr tok \<Rightarrow>
          (let self1 = self\<lparr>tokenizer := Some tok\<rparr>
           in case model_from_pretrained h (model_name self1) of
                Inl e \<Rightarrow> (Inr False, self1)
              | Inr m \<Rightarrow>
                  (Inr True,
                   self1\<lparr>model := Some m,
                         tokenizer := Some (tok\<lparr>pad_token := Some (eos_token tok)\<rparr>)\<rparr>)))"

text \<open>\<open>__init__\<close>: both fields \<open>None\<close>, then \<open>load_model\<close>, whose result is dropped.\<close>

definition new_predictor :: "hub \<Rightarrow> string \<Rightarrow> predictor" where
  "new_predictor h name =
     snd (load_model h \<lparr>model_name = name, model = None, tokenizer = None\<rparr>)"

text \<open>The test of lines 120 to 123 on a cleaned prediction.\<close>

definition accept_prediction :: "string \<Rightarrow> string list \<Rightarrow> bool" where
  "accept_prediction clean_prediction predictions =
     (clean_prediction \<noteq> [] \<and> 3 \<le> length (py_split clean_prediction)
      \<and> clean_prediction \<notin> set predictions \<and> 10 \<le> length clean_prediction)"

text \<open>
  The loop of lines 99 to 128. \<open>att\<close> is the raw attempt, \<open>i\<close> the loop index, which is
  also the number of attempts made so far, and \<open>k\<close> the number of iterations left. The
  result is what the loop leaves (an exception, or the list \<open>predictions\<close>) and the
  number of attempts made.
\<close>

fun predictions_loop ::
  "(nat \<Rightarrow> exn + string) \<Rightarrow> string \<Rightarrow> int \<Rightarrow> nat \<Rightarrow> nat \<Rightarrow> string list
     \<Rightarrow> (exn + string list) \<times> nat" where
  "predictions_loop att input_text num i 0 predictions = (Inr predictions, i)"
| "predictions_loop att input_text num i (Suc k) predictions =
     (case att i of
        Inl e \<Rightarrow> (Inl e, Suc i)
      | Inr generated_text \<Rightarrow>
          (let clean_prediction = clean_generated_text generated_text input_text;
               predictions1 =
                 (if accept_prediction clean_prediction predictions
                  then predictions @ [clean_prediction] else predictions)
           in if num \<le> int (length predictions1) then (Inr predictions1, Suc i)
              else predictions_loop att input_text num (Suc i) k predictions1))"

text \<open>The body of the \<open>try\<close> statement of \<open>generate_predictions\<close>.\<close>

definition predictions_try ::
  "tokenizer \<Rightarrow> lm \<Rightarrow> string \<Rightarrow> int \<Rightarrow> (exn + string list) \<times> nat" where
  "predictions_try tok m input_text num =
     (case encode tok input_text of
        Inl e \<Rightarrow> (Inl e, 0)
      | Inr input_ids \<Rightarrow>
          (case predictions_loop (raw_attempt tok m input_ids) input_text num 0
                  (nat (num * 2)) [] of
             (Inl e, n) \<Rightarrow> (Inl e, n)
           | (Inr predictions, n) \<Rightarrow> (Inr (py_take num predictions), n)))"

text \<open>
  \<open>generate_predictions\<close>: what the call gives its caller (a returned list, or an
  exception that leaves the function) and the number of raw generation attempts made.
\<close>

definition generate_predictions ::
  "predictor \<Rightarrow> string \<Rightarrow> int \<Rightarrow> (exn + string list) \<times> nat" where
  "generate_predictions self input_text num_predictions =
     (case model self of
        None \<Rightarrow> (Inr [], 0)
      | Some m \<Rightarrow>
          (case tokenizer self of
             None \<Rightarrow> (Inr [], 0)
           | Some tok \<Rightarrow>
               (case predictions_try tok m input_text num_predictions of
                  (Inl e, n) \<Rightarrow> (Inr [], n)
                | (Inr predictions, n) \<Rightarrow> (Inr predictions, n))))"

section \<open>app.py: generate_stories\<close>

text \<open>
  Lines 117 to 125: the story built from one decoded text, or \<open>None\<close> when one of the
  two tests on the number of sentences fails.
\<close>

definition story_text :: "string \<Rightarrow> string \<Rightarrow> string option" where
  "story_text generated_text input_text =
     (let new_text = py_strip (drop (length input_text) generated_text);
          sentences = re_split new_text
      in if 2 \<le> length sentences then
           (let story_sentences =
                  map py_strip (filter (\<lambda>s. py_strip s \<noteq> []) (take 4 sentences))
            in if 2 \<le> length story_sentences
               then Some (py_join ''. '' story_sentences @ ''.'')
               else None)
         else None)"

text \<open>Lines 126 and 127: the story is appended when it is long enough and new.\<close>

definition stories_step :: "string \<Rightarrow> string \<Rightarrow> string list \<Rightarrow> string list" where
  "stories_step generated_text input_text stories =
     (case story_text generated_text input_text of
        None \<Rightarrow> stories
      | Some clean_story \<Rightarrow>
          if 50 < length clean_story \<and> clean_story \<notin> set stories
          then stories @ [clean_story] else stories)"

text \<open>The loop of lines 99 to 127, which has no \<open>break\<close>.\<close>

fun stories_loop ::
  "(nat \<Rightarrow> exn + string) \<Rightarrow> string \<Rightarrow> nat \<Rightarrow> nat \<Rightarrow> string list
     \<Rightarrow> (exn + string list) \<times> nat" where
  "stories_loop att input_text i 0 stories = (Inr stories, i)"
| "stories_loop att input_text i (Suc k) stories =
     (case att i of
        Inl e \<Rightarrow> (Inl e, Suc i)
      | Inr generated_text \<Rightarrow>
          stories_loop att input_text (Suc i) k
            (stories_step generated_text input_text stories))"

text \<open>
  The function takes the model and the tokenizer as arguments; either may be \<open>None\<close>,
  and then the first use of it raises \<open>AttributeError\<close> inside the \<open>try\<close> statement.
\<close>

definition story_attempt ::
  "tokenizer \<Rightarrow> lm option \<Rightarrow> token_ids \<Rightarrow> nat \<Rightarrow> exn + string" where
  "story_attempt tok mo input_ids i =
     (case mo of None \<Rightarrow> Inl AttributeError | Some m \<Rightarrow> raw_attempt tok m input_ids i)"

definition stories_try ::
  "string \<Rightarrow> lm option \<Rightarrow> tokenizer option \<Rightarrow> int \<Rightarrow> (exn + string list) \<times> nat" where
  "stories_try input_text mo tko num_stories =
     (case tko of
        None \<Rightarrow> (Inl AttributeError, 0)
      | Some tok \<Rightarrow>
          (case encode tok input_text of
             Inl e \<Rightarrow> (Inl e, 0)
           | Inr input_ids \<Rightarrow>
               (case stories_loop (story_attempt tok mo input_ids) input_text 0
                       (nat (num_stories * 2)) [] of
                  (Inl e, n) \<Rightarrow> (Inl e, n)
                | (Inr stories, n) \<Rightarrow> (Inr (py_take num_stories stories), n))))"

definition generate_stories ::
  "string \<Rightarrow> lm option \<Rightarrow> tokenizer option \<Rightarrow> int \<Rightarrow> (exn + string list) \<times> nat" where
  "generate_stories input_text mo tko num_stories =
     (case stories_try input_text mo tko num_stories of
        (Inl e, n) \<Rightarrow> (Inr [], n)
      | (Inr stories, n) \<Rightarrow> (Inr stories, n))"

section \<open>A deterministic stub of the model\<close>

text \<open>
  A tokenizer whose tokens are the code points of the text, and a model that answers its
  \<open>i\<close>-th call from a script: it raises, or returns the input followed by a scripted
  continuation.
\<close>

definition stub_tokenizer :: tokenizer where
  "stub_tokenizer =
     \<lparr>encode = (\<lambda>s. Inr (map of_char s)), decode = (\<lambda>ids. Inr (map char_of ids)),
      eos_token = ''<|endoftext|>'', pad_token = Some ''<|endoftext|>''\<rparr>"

fun script_at :: "(exn + string) list \<Rightarrow> nat \<Rightarrow> exn + string" where
  "script_at [] i = Inl (Exception ''script exhausted'')"
| "script_at (x # xs) 0 = x"
| "script_at (x # xs) (Suc i) = script_at xs i"

definition stub_lm :: "(exn + string) list \<Rightarrow> lm" where
  "stub_lm script =
     \<lparr>generate = (\<lambda>i ids. case script_at script i of
                               Inl e \<Rightarrow> Inl e
                             | Inr continuation \<Rightarrow> Inr (ids @ map of_char continuation))\<rparr>"

definition stub_predictor :: "(exn + string) list \<Rightarrow> predictor" where
  "stub_predictor script =
     \<lparr>model_name = ''gpt2'', model = Some (stub_lm script), tokenizer = Some stub_tokenizer\<rparr>"

section \<open>The two filtering policies as the specification words them\<close>

text \<open>
  Single-sentence mode in the words of the specification: the first non-empty segment
  (segments are trimmed, and empty ones discarded before counting); its last word is
  dropped when it is shorter than 2 characters or holds a non-alphabetic character; the
  remaining words are joined by single spaces.
\<close>

definition spec_single_sentence :: "string \<Rightarrow> string" where
  "spec_single_sentence text =
     (case filter (\<lambda>s. s \<noteq> []) (map py_strip (re_split text)) of
        [] \<Rightarrow> []
      | s # _ \<Rightarrow>
          (let words = py_split s
           in py_join '' ''
                (if words \<noteq> [] \<and> (length (last words) < 2 \<or> \<not> list_all is_alpha (last words))
                 then butlast words else words)))"

text \<open>
  Story mode in the words of the specification: up to the first 4 non-empty segments, at
  least 2 of them, rejoined with a period and a space, and a period at the end.
\<close>

definition spec_story_text :: "string \<Rightarrow> string option" where
  "spec_story_text text =
     (let segments = take 4 (filter (\<lambda>s. s \<noteq> []) (map py_strip (re_split text)))
      in if 2 \<le> length segments then Some (py_join ''. '' segments @ ''.'') else None)"

text \<open>
  The de-duplicated form of a list of candidates with the order preserved as
  first-accepted-first: the first occurrence of every candidate is kept, in its place.
\<close>

definition first_occurrences :: "'a list \<Rightarrow> 'a list" where
  "first_occurrences xs = rev (remdups (rev xs))"

section \<open>Facts about the string operations\<close>

lemma re_split_not_Nil: "re_split t \<noteq> []"
  by (induction t rule: re_split.induct) (auto split: list.splits)

text \<open>The first piece of the split is the text before the first terminator.\<close>

lemma hd_re_split: "hd (re_split t) = takeWhile (\<lambda>c. \<not> is_terminator c) t"
  by (induction t rule: re_split.induct) (auto split: list.splits simp: re_split_not_Nil)

lemma dropWhile_all_Nil: "list_all P (dropWhile P s) \<Longrightarrow> dropWhile P s = []"
proof (rule ccontr)
  assume a: "list_all P (dropWhile P s)" and n: "dropWhile P s \<noteq> []"
  from n have "\<not> P (hd (dropWhile P s))" by (rule hd_dropWhile)
  moreover from n have "hd (dropWhile P s) \<in> set (dropWhile P s)" by simp
  ultimately show False using a by (simp add: list_all_iff)
qed

lemma py_strip_Nil_iff: "py_strip s = [] \<longleftrightarrow> list_all is_space s"
proof
  assume "py_strip s = []"
  then have "list_all is_space (dropWhile is_space s)"
    by (simp add: py_strip_def list_all_iff)
  then have "dropWhile is_space s = []" by (rule dropWhile_all_Nil)
  then show "list_all is_space s" by (simp add: list_all_iff)
next
  assume "list_all is_space s"
  then show "py_strip s = []"
    by (auto simp: py_strip_def list_all_iff dest: set_dropWhileD)
qed

lemma set_py_strip: "set (py_strip s) \<subseteq> set s"
  by (auto simp: py_strip_def dest!: set_dropWhileD)

lemma py_split_Nil_iff: "py_split s = [] \<longleftrightarrow> list_all is_space s"
  by (induction s rule: py_split.induct) (auto split: list.splits)

text \<open>The words of a text are its characters other than whitespace, in order.\<close>

lemma concat_py_split: "concat (py_split s) = filter (\<lambda>c. \<not> is_space c) s"
  by (induction s rule: py_split.induct) (auto split: list.splits simp: py_split_Nil_iff)

lemma py_split_no_empty_word: "[] \<notin> set (py_split s)"
  by (induction s rule: py_split.induct) (auto split: list.splits)

lemma py_split_word_chars: "w \<in> set (py_split s) \<Longrightarrow> set w \<subseteq> set s"
proof -
  assume "w \<in> set (py_split s)"
  then have "set w \<subseteq> set (concat (py_split s))" by auto
  then show ?thesis by (auto simp: concat_py_split)
qed

lemma py_split_dropWhile: "py_split (dropWhile is_space s) = py_split s"
  by (induction s rule: py_split.induct) auto

lemma py_split_snoc_space: "is_space c \<Longrightarrow> py_split (s @ [c]) = py_split s"
  by (induction s rule: py_split.induct) (auto split: list.splits)

lemma py_split_rev_dropWhile: "py_split (rev (dropWhile is_space (rev s))) = py_split s"
proof (induction s rule: rev_induct)
  case Nil
  then show ?case by simp
next
  case (snoc x xs)
  then show ?case by (cases "is_space x") (auto simp: py_split_snoc_space)
qed

text \<open>Trimming a text does not change its words.\<close>

lemma py_split_strip: "py_split (py_strip s) = py_split s"
  by (simp add: py_strip_def py_split_rev_dropWhile py_split_dropWhile)

lemma set_py_join: "set (py_join sep ws) \<subseteq> set sep \<union> \<Union> (set ` set ws)"
  by (induction sep ws rule: py_join.induct) auto

section \<open>Input validation\<close>

text \<open>
  Claim C9. \<open>validate_input\<close> returns \<open>(True, "")\<close> exactly on the texts whose trimmed
  form is not empty and has between 3 and 200 characters, and it returns nothing else
  with a true first component. On the four inputs of the test script it returns the
  empty-input message for \<open>""\<close>, the too-short message for \<open>"Hi"\<close>, success for
  \<open>"This is a good sentence"\<close> and the too-long message for 250 times \<open>"A"\<close>.
\<close>

theorem validate_input_accepts_exactly:
  "(validate_input text = (True, '''')
      \<longleftrightarrow> py_strip text \<noteq> [] \<and> 3 \<le> length (py_strip text) \<and> length (py_strip text) \<le> 200)
   \<and> fst (validate_input text) = (validate_input text = (True, ''''))
   \<and> validate_input '''' = (False, ''Input text cannot be empty'')
   \<and> validate_input ''Hi'' = (False, ''Input text is too short (minimum 3 characters)'')
   \<and> validate_input ''This is a good sentence'' = (True, '''')
   \<and> validate_input (replicate 250 CHR ''A'')
       = (False, ''Input text is too long (maximum 200 characters)'')"
proof -
  have a: "validate_input text = (True, '''')
      \<longleftrightarrow> py_strip text \<noteq> [] \<and> 3 \<le> length (py_strip text) \<and> length (py_strip text) \<le> 200"
    by (auto simp: validate_input_def py_strip_def)
  have b: "fst (validate_input text) = (validate_input text = (True, ''''))"
    by (simp add: validate_input_def)
  have c: "validate_input '''' = (False, ''Input text cannot be empty'')"
    by code_simp
  have d: "validate_input ''Hi'' = (False, ''Input text is too short (minimum 3 characters)'')"
    by code_simp
  have e: "validate_input ''This is a good sentence'' = (True, '''')"
    by code_simp
  have f: "validate_input (replicate 250 CHR ''A'')
       = (False, ''Input text is too long (maximum 200 characters)'')"
    by code_simp
  show ?thesis by (intro conjI a b c d e f)
qed

section \<open>Facts about the loop of generate_predictions\<close>

lemma predictions_loop_attempts:
  "i \<le> snd (predictions_loop att inp num i k preds)
   \<and> snd (predictions_loop att inp num i k preds) \<le> i + k"
proof (induction k arbitrary: i preds)
  case 0
  show ?case by simp
next
  case (Suc k)
  let ?p = "if accept_prediction (clean_generated_text (projr (att i)) inp) preds
            then preds @ [clean_generated_text (projr (att i)) inp] else preds"
  from Suc [of "Suc i" ?p] show ?case
    by (auto simp: Let_def split: sum.splits)
qed

lemma predictions_loop_raise:
  "predictions_loop att inp num i k preds = (r, n) \<Longrightarrow> i \<le> j \<Longrightarrow> j < n
   \<Longrightarrow> att j = Inl e \<Longrightarrow> \<exists>e'. r = Inl e'"
proof (induction k arbitrary: i preds)
  case 0
  then show ?case by simp
next
  case (Suc k)
  show ?case
  proof (cases "att i")
    case (Inl e0)
    with Suc.prems show ?thesis by auto
  next
    case (Inr raw)
    with Suc.prems have ij: "Suc i \<le> j" by (cases "j = i") auto
    let ?p = "if accept_prediction (clean_generated_text raw inp) preds
              then preds @ [clean_generated_text raw inp] else preds"
    show ?thesis
    proof (cases "num \<le> int (length ?p)")
      case True
      with Inr Suc.prems ij show ?thesis by (auto simp: Let_def split: if_splits)
    next
      case False
      with Inr Suc.prems have "predictions_loop att inp num (Suc i) k ?p = (r, n)"
        by (simp add: Let_def)
      from Suc.IH [OF this ij Suc.prems(3) Suc.prems(4)] show ?thesis .
    qed
  qed
qed

lemma predictions_loop_distinct:
  "predictions_loop att inp num i k preds = (Inr ps, n) \<Longrightarrow> distinct preds \<Longrightarrow> distinct ps"
proof (induction k arbitrary: i preds)
  case 0
  then show ?case by simp
next
  case (Suc k)
  show ?case
  proof (cases "att i")
    case (Inl e0)
    with Suc.prems show ?thesis by auto
  next
    case (Inr raw)
    let ?p = "if accept_prediction (clean_generated_text raw inp) preds
              then preds @ [clean_generated_text raw inp] else preds"
    from Suc.prems(2) have d: "distinct ?p" by (simp add: accept_prediction_def)
    show ?thesis
    proof (cases "num \<le> int (length ?p)")
      case True
      with Inr Suc.prems(1) have "ps = ?p" by (simp add: Let_def split: if_splits)
      with d show ?thesis by simp
    next
      case False
      with Inr Suc.prems have "predictions_loop att inp num (Suc i) k ?p = (Inr ps, n)"
        by (simp add: Let_def)
      from Suc.IH [OF this d] show ?thesis .
    qed
  qed
qed

lemma accept_prediction_alone:
  "accept_prediction c preds \<Longrightarrow> accept_prediction c []"
  by (simp add: accept_prediction_def)

lemma predictions_loop_step:
  "att i = Inr raw \<Longrightarrow>
   predictions_loop att inp num i (Suc k) preds =
     (if accept_prediction (clean_generated_text raw inp) preds then
        (if num \<le> int (Suc (length preds))
         then (Inr (preds @ [clean_generated_text raw inp]), Suc i)
         else predictions_loop att inp num (Suc i) k (preds @ [clean_generated_text raw inp]))
      else
        (if num \<le> int (length preds) then (Inr preds, Suc i)
         else predictions_loop att inp num (Suc i) k preds))"
  by (simp add: Let_def)

lemma predictions_loop_indices:
  "predictions_loop att inp num i k preds = (Inr ps, n) \<Longrightarrow>
   \<exists>js. ps = preds @ map (\<lambda>j. clean_generated_text (projr (att j)) inp) js
        \<and> sorted_wrt (<) js
        \<and> list_all (\<lambda>j. i \<le> j \<and> j < n \<and> \<not> isl (att j)
                          \<and> accept_prediction (clean_generated_text (projr (att j)) inp) []) js"
proof (induction k arbitrary: i preds)
  case 0
  then have "ps = preds" by simp
  then show ?case by (intro exI [of _ "[]"]) simp
next
  case (Suc k)
  let ?f = "\<lambda>j. clean_generated_text (projr (att j)) inp"
  let ?ok = "\<lambda>i j. i \<le> j \<and> j < n \<and> \<not> isl (att j) \<and> accept_prediction (?f j) []"
  show ?case
  proof (cases "att i")
    case (Inl e0)
    with Suc.prems show ?thesis by auto
  next
    case (Inr raw)
    let ?c = "clean_generated_text raw inp"
    have fi: "?f i = ?c" using Inr by simp
    have ni: "\<not> isl (att i)" using Inr by simp
    have step: "predictions_loop att inp num i (Suc k) preds =
     (if accept_prediction ?c preds then
        (if num \<le> int (Suc (length preds))
         then (Inr (preds @ [?c]), Suc i)
         else predictions_loop att inp num (Suc i) k (preds @ [?c]))
      else
        (if num \<le> int (length preds) then (Inr preds, Suc i)
         else predictions_loop att inp num (Suc i) k preds))"
      using Inr by (rule predictions_loop_step)
    show ?thesis
    proof (cases "accept_prediction ?c preds")
      case acc: True
      then have acc0: "accept_prediction (?f i) []"
        using fi accept_prediction_alone by metis
      show ?thesis
      proof (cases "num \<le> int (Suc (length preds))")
        case True
        with acc step Suc.prems have e: "ps = preds @ [?c]" "n = Suc i" by simp_all
        have "ps = preds @ map ?f [i]" using e(1) fi by simp
        moreover have "sorted_wrt (<) [i]" by simp
        moreover have "list_all (?ok i) [i]" using e(2) ni acc0 by simp
        ultimately show ?thesis by blast
      next
        case False
        with acc step Suc.prems
        have run: "predictions_loop att inp num (Suc i) k (preds @ [?c]) = (Inr ps, n)"
          by simp
        from Suc.IH [OF run] obtain js where js: "ps = (preds @ [?c]) @ map ?f js"
          "sorted_wrt (<) js" "list_all (?ok (Suc i)) js" by blast
        have n: "Suc i \<le> n"
          using predictions_loop_attempts [of "Suc i" att inp num k "preds @ [?c]"] run
          by simp
        have a: "ps = preds @ map ?f (i # js)" using js(1) fi by simp
        have b: "sorted_wrt (<) (i # js)" using js(2) js(3) by (auto simp: list_all_iff)
        have c: "list_all (?ok i) (i # js)"
          using js(3) n ni acc0 by (auto simp: list_all_iff)
        from a b c show ?thesis by blast
      qed
    next
      case rej: False
      show ?thesis
      proof (cases "num \<le> int (length preds)")
        case True
        with rej step Suc.prems have e: "ps = preds" "n = Suc i" by simp_all
        then have "ps = preds @ map ?f []" by simp
        moreover have "sorted_wrt (<) ([]::nat list)" by simp
        moreover have "list_all (?ok i) []" by simp
        ultimately show ?thesis by blast
      next
        case False
        with rej step Suc.prems
        have run: "predictions_loop att inp num (Suc i) k preds = (Inr ps, n)"
          by simp
        from Suc.IH [OF run] obtain js where js: "ps = preds @ map ?f js"
          "sorted_wrt (<) js" "list_all (?ok (Suc i)) js" by blast
        have c: "list_all (?ok i) js" using js(3) by (auto simp: list_all_iff)
        from js(1) js(2) c show ?thesis by blast
      qed
    qed
  qed
qed

text \<open>
  The loop stops at the attempt that supplies the last candidate wanted: it never holds
  more than \<open>num\<close> candidates, it leaves attempts unused only when it holds \<open>num\<close>, and
  then the last attempt made is the one whose candidate was appended last.
\<close>

lemma predictions_loop_early_stop:
  "predictions_loop att inp num i k preds = (Inr ps, n) \<Longrightarrow> int (length preds) < num \<Longrightarrow>
   int (length ps) \<le> num
   \<and> (n < i + k \<longrightarrow> int (length ps) = num)
   \<and> (int (length ps) = num \<longrightarrow>
        i < n \<and> \<not> isl (att (n - 1)) \<and> ps \<noteq> []
        \<and> last ps = clean_generated_text (projr (att (n - 1))) inp
        \<and> accept_prediction (last ps) (butlast ps))"
proof (induction k arbitrary: i preds)
  case 0
  then show ?case by simp
next
  case (Suc k)
  show ?case
  proof (cases "att i")
    case (Inl e0)
    with Suc.prems show ?thesis by auto
  next
    case (Inr raw)
    let ?c = "clean_generated_text raw inp"
    have step: "predictions_loop att inp num i (Suc k) preds =
     (if accept_prediction ?c preds then
        (if num \<le> int (Suc (length preds))
         then (Inr (preds @ [?c]), Suc i)
         else predictions_loop att inp num (Suc i) k (preds @ [?c]))
      else
        (if num \<le> int (length preds) then (Inr preds, Suc i)
         else predictions_loop att inp num (Suc i) k preds))"
      using Inr by (rule predictions_loop_step)
    show ?thesis
    proof (cases "accept_prediction ?c preds")
      case acc: True
      show ?thesis
      proof (cases "num \<le> int (Suc (length preds))")
        case True
        with acc step Suc.prems(1) have e: "ps = preds @ [?c]" "n = Suc i" by simp_all
        from True Suc.prems(2) have "int (length ps) = num" using e(1) by simp
        with e acc Inr show ?thesis by simp
      next
        case False
        with acc step Suc.prems(1)
        have run: "predictions_loop att inp num (Suc i) k (preds @ [?c]) = (Inr ps, n)"
          by simp
        from False have lt: "int (length (preds @ [?c])) < num" by simp
        have n: "Suc i \<le> n"
          using predictions_loop_attempts [of "Suc i" att inp num k "preds @ [?c]"] run
          by simp
        from Suc.IH [OF run lt] n show ?thesis by auto
      qed
    next
      case rej: False
      from Suc.prems(2) have nb: "\<not> num \<le> int (length preds)" by simp
      with rej step Suc.prems(1)
      have run: "predictions_loop att inp num (Suc i) k preds = (Inr ps, n)" by simp
      have n: "Suc i \<le> n"
        using predictions_loop_attempts [of "Suc i" att inp num k preds] run by simp
      from Suc.IH [OF run Suc.prems(2)] n show ?thesis by auto
    qed
  qed
qed

section \<open>Facts about the loop of generate_stories\<close>

lemma stories_loop_attempts:
  "i \<le> snd (stories_loop att inp i k stories)
   \<and> snd (stories_loop att inp i k stories) \<le> i + k"
proof (induction k arbitrary: i stories)
  case 0
  show ?case by simp
next
  case (Suc k)
  from Suc [of "Suc i" "stories_step (projr (att i)) inp stories"] show ?case
    by (auto split: sum.splits)
qed

text \<open>Without an exception the loop of generate_stories makes every attempt.\<close>

lemma stories_loop_all_attempts:
  "stories_loop att inp i k stories = (Inr ss, n) \<Longrightarrow> n = i + k"
proof (induction k arbitrary: i stories)
  case 0
  then show ?case by simp
next
  case (Suc k)
  show ?case
  proof (cases "att i")
    case (Inl e0)
    with Suc.prems show ?thesis by auto
  next
    case (Inr raw)
    with Suc.prems
    have "stories_loop att inp (Suc i) k (stories_step raw inp stories) = (Inr ss, n)"
      by simp
    from Suc.IH [OF this] show ?thesis by simp
  qed
qed

lemma stories_loop_raise:
  "stories_loop att inp i k stories = (r, n) \<Longrightarrow> i \<le> j \<Longrightarrow> j < n
   \<Longrightarrow> att j = Inl e \<Longrightarrow> \<exists>e'. r = Inl e'"
proof (induction k arbitrary: i stories)
  case 0
  then show ?case by simp
next
  case (Suc k)
  show ?case
  proof (cases "att i")
    case (Inl e0)
    with Suc.prems show ?thesis by auto
  next
    case (Inr raw)
    with Suc.prems have ij: "Suc i \<le> j" by (cases "j = i") auto
    from Inr Suc.prems
    have "stories_loop att inp (Suc i) k (stories_step raw inp stories) = (r, n)"
      by simp
    from Suc.IH [OF this ij Suc.prems(3) Suc.prems(4)] show ?thesis .
  qed
qed

lemma stories_step_distinct: "distinct stories \<Longrightarrow> distinct (stories_step raw inp stories)"
  by (simp add: stories_step_def split: option.splits)

lemma stories_loop_distinct:
  "stories_loop att inp i k stories = (Inr ss, n) \<Longrightarrow> distinct stories \<Longrightarrow> distinct ss"
proof (induction k arbitrary: i stories)
  case 0
  then show ?case by simp
next
  case (Suc k)
  show ?case
  proof (cases "att i")
    case (Inl e0)
    with Suc.prems show ?thesis by auto
  next
    case (Inr raw)
    with Suc.prems
    have "stories_loop att inp (Suc i) k (stories_step raw inp stories) = (Inr ss, n)"
      by simp
    from Suc.IH [OF this stories_step_distinct [OF Suc.prems(2)]] show ?thesis .
  qed
qed

lemma stories_loop_indices:
  "stories_loop att inp i k stories = (Inr ss, n) \<Longrightarrow>
   \<exists>js. ss = stories @ map (\<lambda>j. the (story_text (projr (att j)) inp)) js
        \<and> sorted_wrt (<) js
        \<and> list_all (\<lambda>j. i \<le> j \<and> j < n \<and> \<not> isl (att j)
                          \<and> story_text (projr (att j)) inp \<noteq> None
                          \<and> 50 < length (the (story_text (projr (att j)) inp))) js"
proof (induction k arbitrary: i stories)
  case 0
  then have "ss = stories" by simp
  then show ?case by (intro exI [of _ "[]"]) simp
next
  case (Suc k)
  let ?f = "\<lambda>j. the (story_text (projr (att j)) inp)"
  let ?ok = "\<lambda>i j. i \<le> j \<and> j < n \<and> \<not> isl (att j)
                  \<and> story_text (projr (att j)) inp \<noteq> None \<and> 50 < length (?f j)"
  show ?case
  proof (cases "att i")
    case (Inl e0)
    with Suc.prems show ?thesis by auto
  next
    case (Inr raw)
    have ni: "\<not> isl (att i)" using Inr by simp
    have pr: "projr (att i) = raw" using Inr by simp
    from Inr Suc.prems
    have run: "stories_loop att inp (Suc i) k (stories_step raw inp stories) = (Inr ss, n)"
      by simp
    from Suc.IH [OF run] obtain js where js:
      "ss = stories_step raw inp stories @ map ?f js"
      "sorted_wrt (<) js" "list_all (?ok (Suc i)) js" by blast
    have n: "Suc i \<le> n"
      using stories_loop_attempts [of "Suc i" att inp k "stories_step raw inp stories"] run
      by simp
    have weak: "list_all (?ok i) js" using js(3) by (auto simp: list_all_iff)
    show ?thesis
    proof (cases "stories_step raw inp stories = stories")
      case True
      with js(1) js(2) weak show ?thesis by auto
    next
      case False
      then obtain s where s: "story_text raw inp = Some s" "50 < length s"
        "stories_step raw inp stories = stories @ [s]"
        by (auto simp: stories_step_def split: option.splits if_splits)
      have a: "ss = stories @ map ?f (i # js)" using js(1) s(1) s(3) pr by simp
      have b: "sorted_wrt (<) (i # js)" using js(2) js(3) by (auto simp: list_all_iff)
      have c: "list_all (?ok i) (i # js)" using weak n ni s(1) s(2) pr by simp
      from a b c show ?thesis by blast
    qed
  qed
qed

lemma py_take_is_take: "\<exists>m. py_take n xs = take m xs"
  by (auto simp: py_take_def)

lemma distinct_py_take: "distinct xs \<Longrightarrow> distinct (py_take n xs)"
  by (simp add: py_take_def)

lemma set_py_take: "set (py_take n xs) \<subseteq> set xs"
  by (auto simp: py_take_def dest: in_set_takeD)

section \<open>Exceptions inside the two orchestrators\<close>

lemma predictions_loop_before_last:
  "predictions_loop att inp num i k preds = (r, n) \<Longrightarrow> i \<le> j \<Longrightarrow> Suc j < n
   \<Longrightarrow> \<not> isl (att j)"
proof (induction k arbitrary: i preds)
  case 0
  then show ?case by simp
next
  case (Suc k)
  show ?case
  proof (cases "att i")
    case (Inl e0)
    with Suc.prems show ?thesis by auto
  next
    case (Inr raw)
    let ?c = "clean_generated_text raw inp"
    note step = predictions_loop_step [of att, OF Inr]
    show ?thesis
    proof (cases "j = i")
      case True
      with Inr show ?thesis by simp
    next
      case False
      with Suc.prems(2) have ij: "Suc i \<le> j" by simp
      obtain p where "predictions_loop att inp num (Suc i) k p = (r, n)"
        using Suc.prems(1) Suc.prems(3) ij step [of inp num k preds]
        by (auto split: if_splits)
      from Suc.IH [OF this ij Suc.prems(3)] show ?thesis .
    qed
  qed
qed

lemma stories_loop_before_last:
  "stories_loop att inp i k stories = (r, n) \<Longrightarrow> i \<le> j \<Longrightarrow> Suc j < n
   \<Longrightarrow> \<not> isl (att j)"
proof (induction k arbitrary: i stories)
  case 0
  then show ?case by simp
next
  case (Suc k)
  show ?case
  proof (cases "att i")
    case (Inl e0)
    with Suc.prems show ?thesis by auto
  next
    case (Inr raw)
    show ?thesis
    proof (cases "j = i")
      case True
      with Inr show ?thesis by simp
    next
      case False
      with Suc.prems(2) have ij: "Suc i \<le> j" by simp
      from Inr Suc.prems(1)
      have "stories_loop att inp (Suc i) k (stories_step raw inp stories) = (r, n)" by simp
      from Suc.IH [OF this ij Suc.prems(3)] show ?thesis .
    qed
  qed
qed

text \<open>An exception ends the request at the attempt that raised it.\<close>

lemma predictions_loop_raise_last:
  assumes "predictions_loop att inp num i k preds = (r, n)" "i \<le> j" "j < n" "isl (att j)"
  shows "isl r \<and> n = Suc j"
proof -
  from assms(4) obtain e where e: "att j = Inl e" by (cases "att j") auto
  from predictions_loop_raise [OF assms(1) assms(2) assms(3) e] have "isl r" by auto
  moreover have "\<not> Suc j < n"
    using predictions_loop_before_last [OF assms(1) assms(2)] assms(4) by blast
  ultimately show ?thesis using assms(3) by simp
qed

lemma stories_loop_raise_last:
  assumes "stories_loop att inp i k stories = (r, n)" "i \<le> j" "j < n" "isl (att j)"
  shows "isl r \<and> n = Suc j"
proof -
  from assms(4) obtain e where e: "att j = Inl e" by (cases "att j") auto
  from stories_loop_raise [OF assms(1) assms(2) assms(3) e] have "isl r" by auto
  moreover have "\<not> Suc j < n"
    using stories_loop_before_last [OF assms(1) assms(2)] assms(4) by blast
  ultimately show ?thesis using assms(3) by simp
qed

lemma generate_predictions_returns:
  "\<exists>ps n. generate_predictions self inp num = (Inr ps, n)"
  by (auto simp: generate_predictions_def split: option.splits prod.splits sum.splits)

lemma generate_stories_returns:
  "\<exists>ss n. generate_stories inp mo tko num = (Inr ss, n)"
  by (auto simp: generate_stories_def split: prod.splits sum.splits)

lemma generate_predictions_unfold:
  "model self = Some m \<Longrightarrow> tokenizer self = Some tok \<Longrightarrow> encode tok inp = Inr ids \<Longrightarrow>
   generate_predictions self inp num =
     (case predictions_loop (raw_attempt tok m ids) inp num 0 (nat (num * 2)) [] of
        (Inl e, n) \<Rightarrow> (Inr [], n)
      | (Inr ps, n) \<Rightarrow> (Inr (py_take num ps), n))"
  by (simp add: generate_predictions_def predictions_try_def split: prod.splits sum.splits)

lemma generate_stories_unfold:
  "tko = Some tok \<Longrightarrow> encode tok inp = Inr ids \<Longrightarrow>
   generate_stories inp mo tko num =
     (case stories_loop (story_attempt tok mo ids) inp 0 (nat (num * 2)) [] of
        (Inl e, n) \<Rightarrow> (Inr [], n)
      | (Inr ss, n) \<Rightarrow> (Inr (py_take num ss), n))"
  by (simp add: generate_stories_def stories_try_def split: prod.splits sum.splits)

lemma generate_predictions_raise:
  assumes "model self = Some m" "tokenizer self = Some tok" "encode tok inp = Inr ids"
    and "j < snd (generate_predictions self inp num)" "isl (raw_attempt tok m ids j)"
  shows "generate_predictions self inp num = (Inr [], Suc j)"
proof -
  obtain r n where run:
    "predictions_loop (raw_attempt tok m ids) inp num 0 (nat (num * 2)) [] = (r, n)"
    by (cases "predictions_loop (raw_attempt tok m ids) inp num 0 (nat (num * 2)) []")
  note unf = generate_predictions_unfold [OF assms(1) assms(2) assms(3), of num]
  from unf run have "snd (generate_predictions self inp num) = n"
    by (simp split: sum.splits)
  with assms(4) have jn: "j < n" by simp
  from predictions_loop_raise_last [OF run _ jn assms(5)] have "isl r" "n = Suc j" by simp_all
  with unf run show ?thesis by (cases r) simp_all
qed

lemma generate_stories_raise:
  assumes "tko = Some tok" "encode tok inp = Inr ids"
    and "j < snd (generate_stories inp mo tko num)" "isl (story_attempt tok mo ids j)"
  shows "generate_stories inp mo tko num = (Inr [], Suc j)"
proof -
  obtain r n where run:
    "stories_loop (story_attempt tok mo ids) inp 0 (nat (num * 2)) [] = (r, n)"
    by (cases "stories_loop (story_attempt tok mo ids) inp 0 (nat (num * 2)) []")
  note unf = generate_stories_unfold [OF assms(1) assms(2), of mo num]
  from unf run have "snd (generate_stories inp mo tko num) = n"
    by (simp split: sum.splits)
  with assms(3) have jn: "j < n" by simp
  from stories_loop_raise_last [OF run _ jn assms(4)] have "isl r" "n = Suc j" by simp_all
  with unf run show ?thesis by (cases r) simp_all
qed

section \<open>Claim C1: an attempt that raises\<close>

text \<open>
  Claim C1, as the code has it. Neither orchestrator lets an exception of a generation
  attempt reach its caller. When an attempt that the loop makes raises, the whole request
  returns the empty list and that attempt is the last one made: the candidates accepted
  before it are dropped and the remaining attempts are not made. An exception of the
  encoding gives the empty list without any attempt.
\<close>

theorem raised_attempt_empties_request:
  "(\<exists>ps n. generate_predictions self inp num = (Inr ps, n))
   \<and> (\<exists>ss n. generate_stories inp mo tko num = (Inr ss, n))
   \<and> (\<forall>m tok ids j. model self = Some m \<and> tokenizer self = Some tok \<and> encode tok inp = Inr ids
          \<and> j < snd (generate_predictions self inp num) \<and> isl (raw_attempt tok m ids j)
          \<longrightarrow> generate_predictions self inp num = (Inr [], Suc j))
   \<and> (\<forall>tok ids j. tko = Some tok \<and> encode tok inp = Inr ids
          \<and> j < snd (generate_stories inp mo tko num) \<and> isl (story_attempt tok mo ids j)
          \<longrightarrow> generate_stories inp mo tko num = (Inr [], Suc j))
   \<and> (\<forall>m tok. model self = Some m \<and> tokenizer self = Some tok \<and> isl (encode tok inp)
          \<longrightarrow> generate_predictions self inp num = (Inr [], 0))
   \<and> (\<forall>tok. tko = Some tok \<and> isl (encode tok inp)
          \<longrightarrow> generate_stories inp mo tko num = (Inr [], 0))"
proof (intro conjI allI impI)
  show "\<exists>ps n. generate_predictions self inp num = (Inr ps, n)"
    by (rule generate_predictions_returns)
  show "\<exists>ss n. generate_stories inp mo tko num = (Inr ss, n)"
    by (rule generate_stories_returns)
next
  fix m tok ids j
  assume "model self = Some m \<and> tokenizer self = Some tok \<and> encode tok inp = Inr ids
          \<and> j < snd (generate_predictions self inp num) \<and> isl (raw_attempt tok m ids j)"
  then show "generate_predictions self inp num = (Inr [], Suc j)"
    using generate_predictions_raise by blast
next
  fix tok ids j
  assume "tko = Some tok \<and> encode tok inp = Inr ids
          \<and> j < snd (generate_stories inp mo tko num) \<and> isl (story_attempt tok mo ids j)"
  then show "generate_stories inp mo tko num = (Inr [], Suc j)"
    using generate_stories_raise by blast
next
  fix m tok
  assume "model self = Some m \<and> tokenizer self = Some tok \<and> isl (encode tok inp)"
  then show "generate_predictions self inp num = (Inr [], 0)"
    by (cases "encode tok inp") (auto simp: generate_predictions_def predictions_try_def)
next
  fix tok
  assume "tko = Some tok \<and> isl (encode tok inp)"
  then show "generate_stories inp mo tko num = (Inr [], 0)"
    by (cases "encode tok inp") (auto simp: generate_stories_def stories_try_def)
qed

theorem raised_attempt_empties_request_witness:
  "model (stub_predictor [Inr '' see the new shop there. It was closed'', Inl (Exception ''out of memory'')])
     = Some (stub_lm [Inr '' see the new shop there. It was closed'', Inl (Exception ''out of memory'')])
   \<and> isl (raw_attempt stub_tokenizer
            (stub_lm [Inr '' see the new shop there. It was closed'', Inl (Exception ''out of memory'')])
            (map of_char ''I went to the store to'') 1)
   \<and> generate_predictions
        (stub_predictor [Inr '' see the new shop there. It was closed'', Inl (Exception ''out of memory'')])
        ''I went to the store to'' 2 = (Inr [], Suc 1)"
proof -
  let ?script = "[Inr '' see the new shop there. It was closed'', Inl (Exception ''out of memory'')]"
  let ?P = "stub_predictor ?script"
  have a: "model ?P = Some (stub_lm ?script)" by (simp add: stub_predictor_def)
  have b: "tokenizer ?P = Some stub_tokenizer" by (simp add: stub_predictor_def)
  have c: "encode stub_tokenizer ''I went to the store to'' = Inr (map of_char ''I went to the store to'')"
    by (simp add: stub_tokenizer_def)
  have d: "isl (raw_attempt stub_tokenizer (stub_lm ?script) (map of_char ''I went to the store to'') 1)"
    by (simp add: raw_attempt_def stub_lm_def)
  have e: "(1::nat) < snd (generate_predictions ?P ''I went to the store to'' 2)"
    by code_simp
  have hyp: "model ?P = Some (stub_lm ?script) \<and> tokenizer ?P = Some stub_tokenizer
      \<and> encode stub_tokenizer ''I went to the store to'' = Inr (map of_char ''I went to the store to'')
      \<and> 1 < snd (generate_predictions ?P ''I went to the store to'' 2)
      \<and> isl (raw_attempt stub_tokenizer (stub_lm ?script) (map of_char ''I went to the store to'') 1)"
    by (intro conjI a b c d e)
  note inst = raised_attempt_empties_request
         [where self = ?P and inp = "''I went to the store to''" and num = 2]
  from inst [THEN conjunct2, THEN conjunct2, THEN conjunct1, rule_format, OF hyp]
  have r: "generate_predictions ?P ''I went to the store to'' 2 = (Inr [], Suc 1)" .
  show ?thesis by (intro conjI a d r)
qed

text \<open>
  Claim C1 as stated fails. With two candidates wanted, the first attempt gives a
  candidate that the filter accepts, the second attempt raises, and the third and fourth
  attempts would return: the request ends after the second attempt with the empty list.
\<close>

theorem raised_attempt_counterexample:
  "accept_prediction
     (clean_generated_text ''I went to the store to buy milk and bread. Then I went home.''
        ''I went to the store to'') []
   \<and> raw_attempt stub_tokenizer
        (stub_lm [Inr '' buy milk and bread. Then I went home.'', Inl (Exception ''out of memory''),
                  Inr '' see the new shop there.'', Inr '' get some fresh fruit.''])
        (map of_char ''I went to the store to'') 0
      = Inr ''I went to the store to buy milk and bread. Then I went home.''
   \<and> raw_attempt stub_tokenizer
        (stub_lm [Inr '' buy milk and bread. Then I went home.'', Inl (Exception ''out of memory''),
                  Inr '' see the new shop there.'', Inr '' get some fresh fruit.''])
        (map of_char ''I went to the store to'') 1
      = Inl (Exception ''out of memory'')
   \<and> raw_attempt stub_tokenizer
        (stub_lm [Inr '' buy milk and bread. Then I went home.'', Inl (Exception ''out of memory''),
                  Inr '' see the new shop there.'', Inr '' get some fresh fruit.''])
        (map of_char ''I went to the store to'') 2
      = Inr ''I went to the store to see the new shop there.''
   \<and> generate_predictions
        (stub_predictor [Inr '' buy milk and bread. Then I went home.'', Inl (Exception ''out of memory''),
                  Inr '' see the new shop there.'', Inr '' get some fresh fruit.''])
        ''I went to the store to'' 2
      = (Inr [], 2)"
  by code_simp

section \<open>Claim C10: a predictor whose model did not load\<close>

text \<open>
  Claim C10. When the model or the tokenizer of the predictor is \<open>None\<close>,
  \<open>generate_predictions\<close> returns the empty list for every input, makes no generation
  attempt and raises nothing. \<open>load_model\<close> never raises: it returns \<open>False\<close> exactly
  when one of the two \<open>from_pretrained\<close> calls raises, and a predictor whose model was
  \<open>None\<close> before such a load, as in \<open>__init__\<close>, answers every request with the empty list.
\<close>

theorem load_failure_gives_empty_predictions:
  "(model self = None \<or> tokenizer self = None
      \<longrightarrow> generate_predictions self input_text num = (Inr [], 0))
   \<and> (\<exists>b. fst (load_model h self) = Inr b)
   \<and> (fst (load_model h self) = Inr False
        \<longleftrightarrow> isl (tokenizer_from_pretrained h (model_name self))
            \<or> isl (model_from_pretrained h (model_name self)))
   \<and> (fst (load_model h self) = Inr False \<and> model self = None
      \<longrightarrow> generate_predictions (snd (load_model h self)) input_text num = (Inr [], 0))
   \<and> (fst (load_model h \<lparr>model_name = name, model = None, tokenizer = None\<rparr>) = Inr False
      \<longrightarrow> generate_predictions (new_predictor h name) input_text num = (Inr [], 0))"
proof -
  have none: "generate_predictions p input_text num = (Inr [], 0)"
    if "model p = None \<or> tokenizer p = None" for p
    using that by (auto simp: generate_predictions_def split: option.splits)
  have ret: "\<exists>b. fst (load_model h self) = Inr b"
    by (auto simp: load_model_def Let_def split: sum.splits)
  have false_iff: "fst (load_model h self) = Inr False
        \<longleftrightarrow> isl (tokenizer_from_pretrained h (model_name self))
            \<or> isl (model_from_pretrained h (model_name self))"
    by (auto simp: load_model_def Let_def split: sum.splits)
  have keep: "model (snd (load_model h p)) = None"
    if "fst (load_model h p) = Inr False" "model p = None" for p
    using that by (auto simp: load_model_def Let_def split: sum.splits)
  have after: "generate_predictions (snd (load_model h p)) input_text num = (Inr [], 0)"
    if "fst (load_model h p) = Inr False \<and> model p = None" for p
  proof -
    from that keep [of p] have "model (snd (load_model h p)) = None" by simp
    then show ?thesis using none [of "snd (load_model h p)"] by simp
  qed
  have fresh: "generate_predictions (new_predictor h name) input_text num = (Inr [], 0)"
    if "fst (load_model h \<lparr>model_name = name, model = None, tokenizer = None\<rparr>) = Inr False"
    using after [of "\<lparr>model_name = name, model = None, tokenizer = None\<rparr>"] that
    by (simp add: new_predictor_def)
  show ?thesis
  proof (intro conjI impI)
    assume "model self = None \<or> tokenizer self = None"
    then show "generate_predictions self input_text num = (Inr [], 0)" by (rule none)
  next
    show "\<exists>b. fst (load_model h self) = Inr b" by (rule ret)
  next
    show "fst (load_model h self) = Inr False
        \<longleftrightarrow> isl (tokenizer_from_pretrained h (model_name self))
            \<or> isl (model_from_pretrained h (model_name self))" by (rule false_iff)
  next
    assume "fst (load_model h self) = Inr False \<and> model self = None"
    then show "generate_predictions (snd (load_model h self)) input_text num = (Inr [], 0)"
      by (rule after)
  next
    assume "fst (load_model h \<lparr>model_name = name, model = None, tokenizer = None\<rparr>) = Inr False"
    then show "generate_predictions (new_predictor h name) input_text num = (Inr [], 0)"
      by (rule fresh)
  qed
qed

theorem load_failure_gives_empty_predictions_witness:
  "fst (load_model
         \<lparr>tokenizer_from_pretrained = (\<lambda>name. Inr stub_tokenizer),
          model_from_pretrained = (\<lambda>name. Inl (Exception ''connection error''))\<rparr>
         \<lparr>model_name = ''gpt2'', model = None, tokenizer = None\<rparr>) = Inr False
   \<and> tokenizer (new_predictor
         \<lparr>tokenizer_from_pretrained = (\<lambda>name. Inr stub_tokenizer),
          model_from_pretrained = (\<lambda>name. Inl (Exception ''connection error''))\<rparr> ''gpt2'')
       = Some stub_tokenizer
   \<and> generate_predictions
        (new_predictor
         \<lparr>tokenizer_from_pretrained = (\<lambda>name. Inr stub_tokenizer),
          model_from_pretrained = (\<lambda>name. Inl (Exception ''connection error''))\<rparr> ''gpt2'')
        ''I went to the store to'' 3 = (Inr [], 0)"
proof -
  let ?h = "\<lparr>tokenizer_from_pretrained = (\<lambda>name. Inr stub_tokenizer),
          model_from_pretrained = (\<lambda>name. Inl (Exception ''connection error''))\<rparr>"
  have a: "fst (load_model ?h \<lparr>model_name = ''gpt2'', model = None, tokenizer = None\<rparr>)
           = Inr False"
    by (simp add: load_model_def)
  have b: "tokenizer (new_predictor ?h ''gpt2'') = Some stub_tokenizer"
    by (simp add: new_predictor_def load_model_def)
  note inst = load_failure_gives_empty_predictions
      [where h = ?h and name = "''gpt2''" and input_text = "''I went to the store to''"
         and num = 3]
  from inst [THEN conjunct2, THEN conjunct2, THEN conjunct2, THEN conjunct2, rule_format, OF a]
  have c: "generate_predictions (new_predictor ?h ''gpt2'') ''I went to the store to'' 3
           = (Inr [], 0)" .
  show ?thesis by (intro conjI a b c)
qed

section \<open>What the two orchestrators return\<close>

lemma py_take_map: "py_take n (map f xs) = map f (py_take n xs)"
  by (simp add: py_take_def take_map)

lemma sorted_wrt_py_take: "sorted_wrt P xs \<Longrightarrow> sorted_wrt P (py_take n xs)"
  by (simp add: py_take_def sorted_wrt_take)

lemma list_all_py_take: "list_all P xs \<Longrightarrow> list_all P (py_take n xs)"
  using set_py_take [of n xs] by (auto simp: list_all_iff)

lemma list_all_weaken: "list_all P xs \<Longrightarrow> (\<And>x. P x \<Longrightarrow> Q x) \<Longrightarrow> list_all Q xs"
  by (auto simp: list_all_iff)

lemma distinct_length_remdups: "distinct xs \<Longrightarrow> length xs = length (remdups xs)"
  by (simp add: distinct_remdups_id)

lemma generate_predictions_distinct:
  "generate_predictions self inp num = (Inr ps, n) \<Longrightarrow> distinct ps"
proof -
  assume g: "generate_predictions self inp num = (Inr ps, n)"
  show ?thesis
  proof (cases "\<exists>m tok ids. model self = Some m \<and> tokenizer self = Some tok
                   \<and> encode tok inp = Inr ids")
    case True
    then obtain m tok ids where h: "model self = Some m" "tokenizer self = Some tok"
      "encode tok inp = Inr ids" by blast
    obtain r k where run:
      "predictions_loop (raw_attempt tok m ids) inp num 0 (nat (num * 2)) [] = (r, k)"
      by (cases "predictions_loop (raw_attempt tok m ids) inp num 0 (nat (num * 2)) []")
    show ?thesis
    proof (cases r)
      case (Inl e)
      with g run generate_predictions_unfold [OF h, of num] show ?thesis by simp
    next
      case (Inr qs)
      with run have "distinct qs" using predictions_loop_distinct [of _ inp num 0 _ "[]" qs k]
        by simp
      moreover from Inr g run generate_predictions_unfold [OF h, of num]
      have "ps = py_take num qs" by simp
      ultimately show ?thesis by (simp add: distinct_py_take)
    qed
  next
    case False
    with g have "ps = []"
      by (auto simp: generate_predictions_def predictions_try_def
               split: option.splits sum.splits)
    then show ?thesis by simp
  qed
qed

lemma generate_stories_distinct:
  "generate_stories inp mo tko num = (Inr ss, n) \<Longrightarrow> distinct ss"
proof -
  assume g: "generate_stories inp mo tko num = (Inr ss, n)"
  show ?thesis
  proof (cases "\<exists>tok ids. tko = Some tok \<and> encode tok inp = Inr ids")
    case True
    then obtain tok ids where h: "tko = Some tok" "encode tok inp = Inr ids" by blast
    obtain r k where run:
      "stories_loop (story_attempt tok mo ids) inp 0 (nat (num * 2)) [] = (r, k)"
      by (cases "stories_loop (story_attempt tok mo ids) inp 0 (nat (num * 2)) []")
    show ?thesis
    proof (cases r)
      case (Inl e)
      with g run generate_stories_unfold [OF h, of mo num] show ?thesis by simp
    next
      case (Inr qs)
      with run have "distinct qs" using stories_loop_distinct [of _ inp 0 _ "[]" qs k]
        by simp
      moreover from Inr g run generate_stories_unfold [OF h, of mo num]
      have "ss = py_take num qs" by simp
      ultimately show ?thesis by (simp add: distinct_py_take)
    qed
  next
    case False
    with g have "ss = []"
      by (auto simp: generate_stories_def stories_try_def split: option.splits sum.splits)
    then show ?thesis by simp
  qed
qed

text \<open>
  The candidates returned are those of attempts made, in the order of the attempts.
\<close>

lemma generate_predictions_indices:
  assumes "generate_predictions self inp num = (Inr ps, n)"
    and h: "model self = Some m" "tokenizer self = Some tok" "encode tok inp = Inr ids"
  shows "\<exists>js. sorted_wrt (<) js
        \<and> list_all (\<lambda>j. j < n \<and> \<not> isl (raw_attempt tok m ids j)
              \<and> accept_prediction
                   (clean_generated_text (projr (raw_attempt tok m ids j)) inp) []) js
        \<and> ps = map (\<lambda>j. clean_generated_text (projr (raw_attempt tok m ids j)) inp) js"
proof -
  let ?att = "raw_attempt tok m ids"
  let ?f = "\<lambda>j. clean_generated_text (projr (?att j)) inp"
  let ?ok = "\<lambda>j. j < n \<and> \<not> isl (?att j) \<and> accept_prediction (?f j) []"
  obtain r k where run: "predictions_loop ?att inp num 0 (nat (num * 2)) [] = (r, k)"
    by (cases "predictions_loop ?att inp num 0 (nat (num * 2)) []")
  note unf = generate_predictions_unfold [OF h, of num]
  show ?thesis
  proof (cases r)
    case (Inl e)
    with assms(1) run unf have "ps = []" by simp
    then have "sorted_wrt (<) ([]::nat list) \<and> list_all ?ok [] \<and> ps = map ?f []" by simp
    then show ?thesis by blast
  next
    case (Inr qs)
    with assms(1) run unf have e: "ps = py_take num qs" "n = k" by simp_all
    from Inr run predictions_loop_indices [of ?att inp num 0 "nat (num * 2)" "[]" qs k]
    obtain js where js: "qs = map ?f js" "sorted_wrt (<) js"
      "list_all (\<lambda>j. 0 \<le> j \<and> j < k \<and> \<not> isl (?att j) \<and> accept_prediction (?f j) []) js"
      by auto
    have ok: "list_all ?ok js" using js(3) e(2) by (auto simp: list_all_iff)
    have a: "sorted_wrt (<) (py_take num js)" using js(2) by (rule sorted_wrt_py_take)
    have b: "list_all ?ok (py_take num js)" using ok by (rule list_all_py_take)
    have c: "ps = map ?f (py_take num js)" using e(1) js(1) by (simp add: py_take_map)
    from a b c show ?thesis by blast
  qed
qed

lemma generate_stories_indices:
  assumes "generate_stories inp mo tko num = (Inr ss, n)"
    and h: "tko = Some tok" "encode tok inp = Inr ids"
  shows "\<exists>js. sorted_wrt (<) js
        \<and> list_all (\<lambda>j. j < n \<and> \<not> isl (story_attempt tok mo ids j)
              \<and> story_text (projr (story_attempt tok mo ids j)) inp \<noteq> None
              \<and> 50 < length (the (story_text (projr (story_attempt tok mo ids j)) inp))) js
        \<and> ss = map (\<lambda>j. the (story_text (projr (story_attempt tok mo ids j)) inp)) js"
proof -
  let ?att = "story_attempt tok mo ids"
  let ?f = "\<lambda>j. the (story_text (projr (?att j)) inp)"
  let ?ok = "\<lambda>j. j < n \<and> \<not> isl (?att j) \<and> story_text (projr (?att j)) inp \<noteq> None
                 \<and> 50 < length (?f j)"
  obtain r k where run: "stories_loop ?att inp 0 (nat (num * 2)) [] = (r, k)"
    by (cases "stories_loop ?att inp 0 (nat (num * 2)) []")
  note unf = generate_stories_unfold [OF h, of mo num]
  show ?thesis
  proof (cases r)
    case (Inl e)
    with assms(1) run unf have "ss = []" by simp
    then have "sorted_wrt (<) ([]::nat list) \<and> list_all ?ok [] \<and> ss = map ?f []" by simp
    then show ?thesis by blast
  next
    case (Inr qs)
    with assms(1) run unf have e: "ss = py_take num qs" "n = k" by simp_all
    from Inr run stories_loop_indices [of ?att inp 0 "nat (num * 2)" "[]" qs k]
    obtain js where js: "qs = map ?f js" "sorted_wrt (<) js"
      "list_all (\<lambda>j. 0 \<le> j \<and> j < k \<and> \<not> isl (?att j)
                 \<and> story_text (projr (?att j)) inp \<noteq> None \<and> 50 < length (?f j)) js"
      by auto
    have ok: "list_all ?ok js" using js(3) e(2) by (auto simp: list_all_iff)
    have a: "sorted_wrt (<) (py_take num js)" using js(2) by (rule sorted_wrt_py_take)
    have b: "list_all ?ok (py_take num js)" using ok by (rule list_all_py_take)
    have c: "ss = map ?f (py_take num js)" using e(1) js(1) by (simp add: py_take_map)
    from a b c show ?thesis by blast
  qed
qed

section \<open>The number of attempts\<close>

lemma generate_predictions_attempt_budget:
  "snd (generate_predictions self inp num) \<le> nat (num * 2)"
proof -
  have "snd (predictions_loop att inp num 0 (nat (num * 2)) []) \<le> nat (num * 2)" for att
    using predictions_loop_attempts [of 0 att inp num "nat (num * 2)" "[]"] by simp
  then show ?thesis
    by (auto simp: generate_predictions_def predictions_try_def
             split: option.splits sum.splits prod.splits)
       (metis snd_conv)+
qed

lemma generate_stories_attempt_budget:
  "snd (generate_stories inp mo tko num) \<le> nat (num * 2)"
proof -
  have "snd (stories_loop att inp 0 (nat (num * 2)) []) \<le> nat (num * 2)" for att
    using stories_loop_attempts [of 0 att inp "nat (num * 2)" "[]"] by simp
  then show ?thesis
    by (auto simp: generate_stories_def stories_try_def
             split: option.splits sum.splits prod.splits)
       (metis snd_conv)+
qed

lemma stories_loop_Inl:
  "stories_loop att inp i k stories = (Inl e, n) \<Longrightarrow> i < n \<and> n \<le> i + k \<and> att (n - 1) = Inl e"
proof (induction k arbitrary: i stories)
  case 0
  then show ?case by simp
next
  case (Suc k)
  show ?case
  proof (cases "att i")
    case (Inl e0)
    with Suc.prems show ?thesis by auto
  next
    case (Inr raw)
    with Suc.prems
    have "stories_loop att inp (Suc i) k (stories_step raw inp stories) = (Inl e, n)" by simp
    from Suc.IH [OF this] show ?thesis by auto
  qed
qed

text \<open>
  When no attempt raises, generate_stories makes all of its attempts, whatever the
  number of stories collected on the way.
\<close>

lemma generate_stories_no_early_stop:
  assumes "tko = Some tok" "encode tok inp = Inr ids"
    and ok: "list_all (\<lambda>j. \<not> isl (story_attempt tok mo ids j)) [0..<nat (num * 2)]"
  shows "snd (generate_stories inp mo tko num) = nat (num * 2)"
proof -
  let ?att = "story_attempt tok mo ids"
  obtain r n where run: "stories_loop ?att inp 0 (nat (num * 2)) [] = (r, n)"
    by (cases "stories_loop ?att inp 0 (nat (num * 2)) []")
  note unf = generate_stories_unfold [OF assms(1) assms(2), of mo num]
  have n: "snd (generate_stories inp mo tko num) = n"
    using unf run by (simp split: sum.splits)
  show ?thesis
  proof (cases r)
    case (Inl e)
    with run stories_loop_Inl [of ?att inp 0 "nat (num * 2)" "[]" e n]
    have "n - 1 < nat (num * 2)" "isl (?att (n - 1))" by auto
    with ok show ?thesis by (auto simp: list_all_iff)
  next
    case (Inr ss)
    with run stories_loop_all_attempts [of ?att inp 0 "nat (num * 2)" "[]" ss n] n
    show ?thesis by simp
  qed
qed

lemma predictions_loop_Inl:
  "predictions_loop att inp num i k preds = (Inl e, n)
   \<Longrightarrow> i < n \<and> n \<le> i + k \<and> att (n - 1) = Inl e"
proof (induction k arbitrary: i preds)
  case 0
  then show ?case by simp
next
  case (Suc k)
  show ?case
  proof (cases "att i")
    case (Inl e0)
    with Suc.prems show ?thesis by auto
  next
    case (Inr raw)
    obtain p where "predictions_loop att inp num (Suc i) k p = (Inl e, n)"
      using Suc.prems predictions_loop_step [of att, OF Inr, of inp num k preds]
      by (auto split: if_splits)
    from Suc.IH [OF this] show ?thesis by auto
  qed
qed

text \<open>
  When no attempt raises, generate_predictions returns at most \<open>num\<close> candidates, leaves
  attempts unused only when it returns \<open>num\<close> of them, and then the last attempt it made
  is the one that gave the last candidate.
\<close>

lemma generate_predictions_early_stop:
  assumes h: "model self = Some m" "tokenizer self = Some tok" "encode tok inp = Inr ids"
    and ok: "list_all (\<lambda>j. \<not> isl (raw_attempt tok m ids j)) [0..<nat (num * 2)]"
    and pos: "0 < num"
    and g: "generate_predictions self inp num = (Inr ps, n)"
  shows "int (length ps) \<le> num
   \<and> (n < nat (num * 2) \<longrightarrow> int (length ps) = num)
   \<and> (int (length ps) = num \<longrightarrow>
        0 < n \<and> ps \<noteq> []
        \<and> last ps = clean_generated_text (projr (raw_attempt tok m ids (n - 1))) inp
        \<and> accept_prediction (last ps) (butlast ps))"
proof -
  let ?att = "raw_attempt tok m ids"
  obtain r k where run: "predictions_loop ?att inp num 0 (nat (num * 2)) [] = (r, k)"
    by (cases "predictions_loop ?att inp num 0 (nat (num * 2)) []")
  note unf = generate_predictions_unfold [OF h, of num]
  have "\<exists>qs. r = Inr qs"
  proof (cases r)
    case (Inl e)
    with run predictions_loop_Inl [of ?att inp num 0 "nat (num * 2)" "[]" e k]
    have "k - 1 < nat (num * 2)" "isl (?att (k - 1))" by auto
    with ok show ?thesis by (auto simp: list_all_iff)
  next
    case (Inr qs)
    then show ?thesis by simp
  qed
  then obtain qs where r: "r = Inr qs" by blast
  from pos have lt: "int (length ([]::string list)) < num" by simp
  from run r have run': "predictions_loop ?att inp num 0 (nat (num * 2)) [] = (Inr qs, k)"
    by simp
  note es = predictions_loop_early_stop [OF run' lt]
  from es have le: "int (length qs) \<le> num" by simp
  with pos have "py_take num qs = qs" by (simp add: py_take_def)
  with unf run r g have e: "ps = qs" "n = k" by simp_all
  from es show ?thesis unfolding e by auto
qed

section \<open>The order of the candidates returned\<close>

lemma first_occurrences_Nil: "first_occurrences [] = []"
  by (simp add: first_occurrences_def)

lemma remdups_snoc: "remdups (ys @ [x]) = remdups (filter (\<lambda>y. y \<noteq> x) ys) @ [x]"
  by (induction ys) auto

lemma first_occurrences_Cons:
  "first_occurrences (x # xs) = x # first_occurrences (filter (\<lambda>y. y \<noteq> x) xs)"
  by (simp add: first_occurrences_def remdups_snoc rev_filter)

lemma accept_prediction_snoc:
  "accept_prediction x (preds @ [c]) \<longleftrightarrow> accept_prediction x preds \<and> x \<noteq> c"
  by (auto simp: accept_prediction_def)

lemma predictions_loop_no_raise:
  "predictions_loop att inp num i k preds = (Inr ps, n) \<Longrightarrow> i \<le> j \<Longrightarrow> j < n
   \<Longrightarrow> \<not> isl (att j)"
proof
  assume run: "predictions_loop att inp num i k preds = (Inr ps, n)" and ij: "i \<le> j"
    and jn: "j < n" and "isl (att j)"
  then obtain e where "att j = Inl e" by (cases "att j") auto
  from predictions_loop_raise [OF run ij jn this] show False by simp
qed

lemma stories_loop_no_raise:
  "stories_loop att inp i k stories = (Inr ss, n) \<Longrightarrow> i \<le> j \<Longrightarrow> j < n
   \<Longrightarrow> \<not> isl (att j)"
proof
  assume run: "stories_loop att inp i k stories = (Inr ss, n)" and ij: "i \<le> j"
    and jn: "j < n" and "isl (att j)"
  then obtain e where "att j = Inl e" by (cases "att j") auto
  from stories_loop_raise [OF run ij jn this] show False by simp
qed

text \<open>
  The list the loop leaves: the candidates of the attempts made that pass the test
  against the list it started with, each at its first occurrence, in attempt order.
\<close>

lemma predictions_loop_first_occurrences:
  "predictions_loop att inp num i k preds = (Inr ps, n) \<Longrightarrow>
   ps = preds @ first_occurrences
          (filter (\<lambda>c. accept_prediction c preds)
             (map (\<lambda>j. clean_generated_text (projr (att j)) inp) [i..<n]))"
proof (induction k arbitrary: i preds)
  case 0
  then show ?case by (simp add: first_occurrences_Nil)
next
  case (Suc k)
  let ?f = "\<lambda>j. clean_generated_text (projr (att j)) inp"
  show ?case
  proof (cases "att i")
    case (Inl e0)
    with Suc.prems show ?thesis by auto
  next
    case (Inr raw)
    let ?c = "clean_generated_text raw inp"
    have fi: "?f i = ?c" using Inr by simp
    have step: "predictions_loop att inp num i (Suc k) preds =
     (if accept_prediction ?c preds then
        (if num \<le> int (Suc (length preds))
         then (Inr (preds @ [?c]), Suc i)
         else predictions_loop att inp num (Suc i) k (preds @ [?c]))
      else
        (if num \<le> int (length preds) then (Inr preds, Suc i)
         else predictions_loop att inp num (Suc i) k preds))"
      using Inr by (rule predictions_loop_step)
    show ?thesis
    proof (cases "accept_prediction ?c preds")
      case acc: True
      show ?thesis
      proof (cases "num \<le> int (Suc (length preds))")
        case True
        with acc step Suc.prems have e: "ps = preds @ [?c]" "n = Suc i" by simp_all
        have "map ?f [i..<n] = [?c]" using e(2) fi by simp
        then show ?thesis using e(1) acc
          by (simp add: first_occurrences_Cons first_occurrences_Nil)
      next
        case False
        with acc step Suc.prems
        have run: "predictions_loop att inp num (Suc i) k (preds @ [?c]) = (Inr ps, n)"
          by simp
        have n: "Suc i \<le> n"
          using predictions_loop_attempts [of "Suc i" att inp num k "preds @ [?c]"] run
          by simp
        then have up: "map ?f [i..<n] = ?c # map ?f [Suc i..<n]"
          using fi by (simp add: upt_conv_Cons)
        have fl: "filter (\<lambda>y. y \<noteq> ?c)
                    (filter (\<lambda>x. accept_prediction x preds) (map ?f [Suc i..<n]))
                  = filter (\<lambda>x. accept_prediction x (preds @ [?c])) (map ?f [Suc i..<n])"
          by (simp add: accept_prediction_snoc)
        from Suc.IH [OF run]
        have "ps = (preds @ [?c]) @ first_occurrences
                (filter (\<lambda>x. accept_prediction x (preds @ [?c])) (map ?f [Suc i..<n]))" .
        then show ?thesis unfolding up using acc fl
          by (simp add: first_occurrences_Cons)
      qed
    next
      case rej: False
      show ?thesis
      proof (cases "num \<le> int (length preds)")
        case True
        with rej step Suc.prems have e: "ps = preds" "n = Suc i" by simp_all
        have "map ?f [i..<n] = [?c]" using e(2) fi by simp
        then show ?thesis using e(1) rej by (simp add: first_occurrences_Nil)
      next
        case False
        with rej step Suc.prems
        have run: "predictions_loop att inp num (Suc i) k preds = (Inr ps, n)" by simp
        have n: "Suc i \<le> n"
          using predictions_loop_attempts [of "Suc i" att inp num k preds] run by simp
        then have up: "map ?f [i..<n] = ?c # map ?f [Suc i..<n]"
          using fi by (simp add: upt_conv_Cons)
        from Suc.IH [OF run] show ?thesis unfolding up using rej by simp
      qed
    qed
  qed
qed

lemma stories_loop_first_occurrences:
  "stories_loop att inp i k stories = (Inr ss, n) \<Longrightarrow>
   ss = stories @ first_occurrences
          (filter (\<lambda>s. s \<notin> set stories)
             (map the (filter (\<lambda>t. t \<noteq> None \<and> 50 < length (the t))
                (map (\<lambda>j. story_text (projr (att j)) inp) [i..<n]))))"
proof (induction k arbitrary: i stories)
  case 0
  then show ?case by (simp add: first_occurrences_Nil)
next
  case (Suc k)
  let ?g = "\<lambda>j. story_text (projr (att j)) inp"
  let ?Q = "\<lambda>t. t \<noteq> None \<and> 50 < length (the t)"
  let ?cands = "\<lambda>i. map the (filter ?Q (map ?g [i..<n]))"
  show ?case
  proof (cases "att i")
    case (Inl e0)
    with Suc.prems show ?thesis by auto
  next
    case (Inr raw)
    have gi: "?g i = story_text raw inp" using Inr by simp
    from Inr Suc.prems
    have run: "stories_loop att inp (Suc i) k (stories_step raw inp stories) = (Inr ss, n)"
      by simp
    have n: "Suc i \<le> n" using stories_loop_all_attempts [OF run] by simp
    then have up: "map ?g [i..<n] = story_text raw inp # map ?g [Suc i..<n]"
      using gi by (simp add: upt_conv_Cons)
    note ih = Suc.IH [OF run]
    show ?thesis
    proof (cases "?Q (story_text raw inp)")
      case False
      then have st: "stories_step raw inp stories = stories"
        by (auto simp: stories_step_def split: option.splits)
      from False have "?cands i = ?cands (Suc i)" unfolding up by simp
      with ih st show ?thesis by simp
    next
      case True
      then obtain s where s: "story_text raw inp = Some s" "50 < length s" by auto
      have cs: "?cands i = s # ?cands (Suc i)" unfolding up using s by simp
      show ?thesis
      proof (cases "s \<in> set stories")
        case True
        with s have st: "stories_step raw inp stories = stories"
          by (simp add: stories_step_def)
        from ih show ?thesis unfolding cs st using True by simp
      next
        case False
        with s have st: "stories_step raw inp stories = stories @ [s]"
          by (simp add: stories_step_def)
        have fl: "filter (\<lambda>y. y \<noteq> s) (filter (\<lambda>x. x \<notin> set stories) (?cands (Suc i)))
                  = filter (\<lambda>x. x \<notin> set (stories @ [s])) (?cands (Suc i))"
          by (simp add: conj_commute)
        from ih have "ss = (stories @ [s]) @ first_occurrences
                (filter (\<lambda>x. x \<notin> set (stories @ [s])) (?cands (Suc i)))"
          unfolding st .
        then show ?thesis unfolding cs using False fl
          by (simp add: first_occurrences_Cons)
      qed
    qed
  qed
qed

text \<open>
  What generate_predictions returns, from the attempts it made: when none of them
  raises, the first \<open>num\<close> of the acceptable cleaned texts, each at its first occurrence,
  in the order of the attempts; when one of them raises, nothing.
\<close>

lemma generate_predictions_first_occurrences:
  assumes g: "generate_predictions self inp num = (Inr ps, n)"
    and h: "model self = Some m" "tokenizer self = Some tok" "encode tok inp = Inr ids"
  shows "ps = (if list_all (\<lambda>j. \<not> isl (raw_attempt tok m ids j)) [0..<n]
               then py_take num (first_occurrences
                      (filter (\<lambda>c. accept_prediction c [])
                         (map (\<lambda>j. clean_generated_text (projr (raw_attempt tok m ids j)) inp)
                            [0..<n])))
               else [])"
proof -
  let ?att = "raw_attempt tok m ids"
  obtain r k where run: "predictions_loop ?att inp num 0 (nat (num * 2)) [] = (r, k)"
    by (cases "predictions_loop ?att inp num 0 (nat (num * 2)) []")
  note unf = generate_predictions_unfold [OF h, of num]
  show ?thesis
  proof (cases r)
    case (Inl e)
    with g run unf have e: "ps = []" "n = k" by simp_all
    from Inl run predictions_loop_Inl [of ?att inp num 0 "nat (num * 2)" "[]" e k]
    have "0 < k" "isl (?att (k - 1))" by auto
    then have "\<not> list_all (\<lambda>j. \<not> isl (?att j)) [0..<n]"
      unfolding e(2) by (auto simp: list_all_iff intro!: bexI [of _ "k - 1"])
    with e(1) show ?thesis by simp
  next
    case (Inr qs)
    with g run unf have e: "ps = py_take num qs" "n = k" by simp_all
    from Inr run have run': "predictions_loop ?att inp num 0 (nat (num * 2)) [] = (Inr qs, k)"
      by simp
    have ok: "list_all (\<lambda>j. \<not> isl (?att j)) [0..<n]"
      unfolding e(2) using predictions_loop_no_raise [OF run'] by (auto simp: list_all_iff)
    from predictions_loop_first_occurrences [OF run']
    have "qs = first_occurrences
          (filter (\<lambda>c. accept_prediction c [])
             (map (\<lambda>j. clean_generated_text (projr (?att j)) inp) [0..<k]))" by simp
    with e ok show ?thesis by simp
  qed
qed

lemma generate_stories_first_occurrences:
  assumes g: "generate_stories inp mo tko num = (Inr ss, n)"
    and h: "tko = Some tok" "encode tok inp = Inr ids"
  shows "ss = (if list_all (\<lambda>j. \<not> isl (story_attempt tok mo ids j)) [0..<n]
               then py_take num (first_occurrences
                      (map the (filter (\<lambda>t. t \<noteq> None \<and> 50 < length (the t))
                         (map (\<lambda>j. story_text (projr (story_attempt tok mo ids j)) inp)
                            [0..<n]))))
               else [])"
proof -
  let ?att = "story_attempt tok mo ids"
  obtain r k where run: "stories_loop ?att inp 0 (nat (num * 2)) [] = (r, k)"
    by (cases "stories_loop ?att inp 0 (nat (num * 2)) []")
  note unf = generate_stories_unfold [OF h, of mo num]
  show ?thesis
  proof (cases r)
    case (Inl e)
    with g run unf have e: "ss = []" "n = k" by simp_all
    from Inl run stories_loop_Inl [of ?att inp 0 "nat (num * 2)" "[]" e k]
    have "0 < k" "isl (?att (k - 1))" by auto
    then have "\<not> list_all (\<lambda>j. \<not> isl (?att j)) [0..<n]"
      unfolding e(2) by (auto simp: list_all_iff intro!: bexI [of _ "k - 1"])
    with e(1) show ?thesis by simp
  next
    case (Inr qs)
    with g run unf have e: "ss = py_take num qs" "n = k" by simp_all
    from Inr run have run': "stories_loop ?att inp 0 (nat (num * 2)) [] = (Inr qs, k)"
      by simp
    have ok: "list_all (\<lambda>j. \<not> isl (?att j)) [0..<n]"
      unfolding e(2) using stories_loop_no_raise [OF run'] by (auto simp: list_all_iff)
    from stories_loop_first_occurrences [OF run']
    have "qs = first_occurrences
          (map the (filter (\<lambda>t. t \<noteq> None \<and> 50 < length (the t))
             (map (\<lambda>j. story_text (projr (?att j)) inp) [0..<k])))" by simp
    with e ok show ?thesis by simp
  qed
qed

section \<open>Claim C6: no candidate twice, first accepted first\<close>

text \<open>
  Claim C6. In both modes the returned list holds no string twice, so it is as long as
  its de-duplicated form, and its order is first-accepted-first: when no attempt raises,
  the list is the first \<open>num\<close> entries of the candidates that pass the quality test,
  taken in the order of the attempts made and each kept at its first occurrence only
  (when an attempt raises the list is empty). In particular it is the image of a
  strictly increasing list of attempts made.
\<close>

theorem returned_candidates_distinct:
  "(\<exists>ps n. generate_predictions self inp num = (Inr ps, n)
      \<and> distinct ps \<and> length ps = length (remdups ps)
      \<and> (\<forall>m tok ids. model self = Some m \<and> tokenizer self = Some tok \<and> encode tok inp = Inr ids
            \<longrightarrow> (\<exists>js. sorted_wrt (<) js
                  \<and> list_all (\<lambda>j. j < n \<and> \<not> isl (raw_attempt tok m ids j)) js
                  \<and> ps = map (\<lambda>j. clean_generated_text (projr (raw_attempt tok m ids j)) inp) js)
              \<and> ps = (if list_all (\<lambda>j. \<not> isl (raw_attempt tok m ids j)) [0..<n]
                       then py_take num (first_occurrences
                              (filter (\<lambda>c. accept_prediction c [])
                                 (map (\<lambda>j. clean_generated_text
                                              (projr (raw_attempt tok m ids j)) inp)
                                    [0..<n])))
                       else [])))
   \<and> (\<exists>ss n. generate_stories inp mo tko num = (Inr ss, n)
      \<and> distinct ss \<and> length ss = length (remdups ss)
      \<and> (\<forall>tok ids. tko = Some tok \<and> encode tok inp = Inr ids
            \<longrightarrow> (\<exists>js. sorted_wrt (<) js
                  \<and> list_all (\<lambda>j. j < n \<and> \<not> isl (story_attempt tok mo ids j)
                        \<and> story_text (projr (story_attempt tok mo ids j)) inp \<noteq> None) js
                  \<and> ss = map (\<lambda>j. the (story_text (projr (story_attempt tok mo ids j)) inp)) js)
              \<and> ss = (if list_all (\<lambda>j. \<not> isl (story_attempt tok mo ids j)) [0..<n]
                       then py_take num (first_occurrences
                              (map the (filter (\<lambda>t. t \<noteq> None \<and> 50 < length (the t))
                                 (map (\<lambda>j. story_text
                                              (projr (story_attempt tok mo ids j)) inp)
                                    [0..<n]))))
                       else [])))"
proof (rule conjI)
  obtain ps n where g: "generate_predictions self inp num = (Inr ps, n)"
    using generate_predictions_returns by blast
  have d: "distinct ps" using g by (rule generate_predictions_distinct)
  have l: "length ps = length (remdups ps)" using d by (rule distinct_length_remdups)
  have o: "(\<exists>js. sorted_wrt (<) js
                  \<and> list_all (\<lambda>j. j < n \<and> \<not> isl (raw_attempt tok m ids j)) js
                  \<and> ps = map (\<lambda>j. clean_generated_text (projr (raw_attempt tok m ids j)) inp) js)
              \<and> ps = (if list_all (\<lambda>j. \<not> isl (raw_attempt tok m ids j)) [0..<n]
                       then py_take num (first_occurrences
                              (filter (\<lambda>c. accept_prediction c [])
                                 (map (\<lambda>j. clean_generated_text
                                              (projr (raw_attempt tok m ids j)) inp)
                                    [0..<n])))
                       else [])"
    if h: "model self = Some m \<and> tokenizer self = Some tok \<and> encode tok inp = Inr ids"
    for m tok ids
  proof (rule conjI)
    from h have h1: "model self = Some m" and h2: "tokenizer self = Some tok"
      and h3: "encode tok inp = Inr ids" by simp_all
    from generate_predictions_indices [OF g h1 h2 h3] obtain js where
      js: "sorted_wrt (<) js"
        "list_all (\<lambda>j. j < n \<and> \<not> isl (raw_attempt tok m ids j)
              \<and> accept_prediction
                   (clean_generated_text (projr (raw_attempt tok m ids j)) inp) []) js"
        "ps = map (\<lambda>j. clean_generated_text (projr (raw_attempt tok m ids j)) inp) js"
      by blast
    have "list_all (\<lambda>j. j < n \<and> \<not> isl (raw_attempt tok m ids j)) js"
      using js(2) by (rule list_all_weaken) simp
    with js(1) js(3)
    show "\<exists>js. sorted_wrt (<) js
                  \<and> list_all (\<lambda>j. j < n \<and> \<not> isl (raw_attempt tok m ids j)) js
                  \<and> ps = map (\<lambda>j. clean_generated_text (projr (raw_attempt tok m ids j)) inp) js"
      by blast
    show "ps = (if list_all (\<lambda>j. \<not> isl (raw_attempt tok m ids j)) [0..<n]
                       then py_take num (first_occurrences
                              (filter (\<lambda>c. accept_prediction c [])
                                 (map (\<lambda>j. clean_generated_text
                                              (projr (raw_attempt tok m ids j)) inp)
                                    [0..<n])))
                       else [])"
      using g h1 h2 h3 by (rule generate_predictions_first_occurrences)
  qed
  from g d l o show "\<exists>ps n. generate_predictions self inp num = (Inr ps, n)
      \<and> distinct ps \<and> length ps = length (remdups ps)
      \<and> (\<forall>m tok ids. model self = Some m \<and> tokenizer self = Some tok \<and> encode tok inp = Inr ids
            \<longrightarrow> (\<exists>js. sorted_wrt (<) js
                  \<and> list_all (\<lambda>j. j < n \<and> \<not> isl (raw_attempt tok m ids j)) js
                  \<and> ps = map (\<lambda>j. clean_generated_text (projr (raw_attempt tok m ids j)) inp) js)
              \<and> ps = (if list_all (\<lambda>j. \<not> isl (raw_attempt tok m ids j)) [0..<n]
                       then py_take num (first_occurrences
                              (filter (\<lambda>c. accept_prediction c [])
                                 (map (\<lambda>j. clean_generated_text
                                              (projr (raw_attempt tok m ids j)) inp)
                                    [0..<n])))
                       else []))"
    by blast
next
  obtain ss n where g: "generate_stories inp mo tko num = (Inr ss, n)"
    using generate_stories_returns by blast
  have d: "distinct ss" using g by (rule generate_stories_distinct)
  have l: "length ss = length (remdups ss)" using d by (rule distinct_length_remdups)
  have o: "(\<exists>js. sorted_wrt (<) js
                  \<and> list_all (\<lambda>j. j < n \<and> \<not> isl (story_attempt tok mo ids j)
                        \<and> story_text (projr (story_attempt tok mo ids j)) inp \<noteq> None) js
                  \<and> ss = map (\<lambda>j. the (story_text (projr (story_attempt tok mo ids j)) inp)) js)
              \<and> ss = (if list_all (\<lambda>j. \<not> isl (story_attempt tok mo ids j)) [0..<n]
                       then py_take num (first_occurrences
                              (map the (filter (\<lambda>t. t \<noteq> None \<and> 50 < length (the t))
                                 (map (\<lambda>j. story_text
                                              (projr (story_attempt tok mo ids j)) inp)
                                    [0..<n]))))
                       else [])"
    if h: "tko = Some tok \<and> encode tok inp = Inr ids" for tok ids
  proof (rule conjI)
    from h have h1: "tko = Some tok" and h2: "encode tok inp = Inr ids" by simp_all
    from generate_stories_indices [OF g h1 h2] obtain js where
      js: "sorted_wrt (<) js"
        "list_all (\<lambda>j. j < n \<and> \<not> isl (story_attempt tok mo ids j)
              \<and> story_text (projr (story_attempt tok mo ids j)) inp \<noteq> None
              \<and> 50 < length (the (story_text (projr (story_attempt tok mo ids j)) inp))) js"
        "ss = map (\<lambda>j. the (story_text (projr (story_attempt tok mo ids j)) inp)) js"
      by blast
    have "list_all (\<lambda>j. j < n \<and> \<not> isl (story_attempt tok mo ids j)
                  \<and> story_text (projr (story_attempt tok mo ids j)) inp \<noteq> None) js"
      using js(2) by (rule list_all_weaken) simp
    with js(1) js(3)
    show "\<exists>js. sorted_wrt (<) js
                  \<and> list_all (\<lambda>j. j < n \<and> \<not> isl (story_attempt tok mo ids j)
                        \<and> story_text (projr (story_attempt tok mo ids j)) inp \<noteq> None) js
                  \<and> ss = map (\<lambda>j. the (story_text (projr (story_attempt tok mo ids j)) inp)) js"
      by blast
    show "ss = (if list_all (\<lambda>j. \<not> isl (story_attempt tok mo ids j)) [0..<n]
                       then py_take num (first_occurrences
                              (map the (filter (\<lambda>t. t \<noteq> None \<and> 50 < length (the t))
                                 (map (\<lambda>j. story_text
                                              (projr (story_attempt tok mo ids j)) inp)
                                    [0..<n]))))
                       else [])"
      using g h1 h2 by (rule generate_stories_first_occurrences)
  qed
  from g d l o show "\<exists>ss n. generate_stories inp mo tko num = (Inr ss, n)
      \<and> distinct ss \<and> length ss = length (remdups ss)
      \<and> (\<forall>tok ids. tko = Some tok \<and> encode tok inp = Inr ids
            \<longrightarrow> (\<exists>js. sorted_wrt (<) js
                  \<and> list_all (\<lambda>j. j < n \<and> \<not> isl (story_attempt tok mo ids j)
                        \<and> story_text (projr (story_attempt tok mo ids j)) inp \<noteq> None) js
                  \<and> ss = map (\<lambda>j. the (story_text (projr (story_attempt tok mo ids j)) inp)) js)
              \<and> ss = (if list_all (\<lambda>j. \<not> isl (story_attempt tok mo ids j)) [0..<n]
                       then py_take num (first_occurrences
                              (map the (filter (\<lambda>t. t \<noteq> None \<and> 50 < length (the t))
                                 (map (\<lambda>j. story_text
                                              (projr (story_attempt tok mo ids j)) inp)
                                    [0..<n]))))
                       else []))"
    by blast
qed

theorem returned_candidates_distinct_witness:
  "generate_predictions
     (stub_predictor [Inr '' buy milk and bread. Then I went home.'',
                      Inr '' see the new shop there. It was closed'',
                      Inr '' buy milk and bread. It rained.'',
                      Inr '' get some fresh fruit today. Nothing else''])
     ''I went to the store to'' 3
     = (Inr [''buy milk and bread'', ''see the new shop there'', ''get some fresh fruit today''], 4)
   \<and> distinct [''buy milk and bread'', ''see the new shop there'', ''get some fresh fruit today'']
   \<and> length [''buy milk and bread'', ''see the new shop there'', ''get some fresh fruit today'']
       = length (remdups
           [''buy milk and bread'', ''see the new shop there'', ''get some fresh fruit today''])
   \<and> [''buy milk and bread'', ''see the new shop there'', ''get some fresh fruit today'']
       = py_take 3 (first_occurrences
           (filter (\<lambda>c. accept_prediction c [])
              [''buy milk and bread'', ''see the new shop there'', ''buy milk and bread'',
               ''get some fresh fruit today'']))"
proof -
  let ?script = "[Inr '' buy milk and bread. Then I went home.'',
                      Inr '' see the new shop there. It was closed'',
                      Inr '' buy milk and bread. It rained.'',
                      Inr '' get some fresh fruit today. Nothing else'']"
  let ?P = "stub_predictor ?script"
  let ?inp = "''I went to the store to''"
  let ?r = "[''buy milk and bread'', ''see the new shop there'', ''get some fresh fruit today'']"
  let ?att = "raw_attempt stub_tokenizer (stub_lm ?script) (map of_char ?inp)"
  have ev: "generate_predictions ?P ?inp 3 = (Inr ?r, 4)"
    by code_simp
  have a: "model ?P = Some (stub_lm ?script)" by (simp add: stub_predictor_def)
  have b: "tokenizer ?P = Some stub_tokenizer" by (simp add: stub_predictor_def)
  have c: "encode stub_tokenizer ?inp = Inr (map of_char ?inp)"
    by (simp add: stub_tokenizer_def)
  have hyp: "model ?P = Some (stub_lm ?script) \<and> tokenizer ?P = Some stub_tokenizer
             \<and> encode stub_tokenizer ?inp = Inr (map of_char ?inp)"
    by (intro conjI a b c)
  have noraise: "list_all (\<lambda>j. \<not> isl (?att j)) [0..<4]"
    by code_simp
  have cleaned: "map (\<lambda>j. clean_generated_text (projr (?att j)) ?inp) [0..<4]
                 = [''buy milk and bread'', ''see the new shop there'', ''buy milk and bread'',
                    ''get some fresh fruit today'']"
    by code_simp
  note inst = returned_candidates_distinct
      [where self = ?P and inp = ?inp and num = 3, THEN conjunct1]
  from inst obtain ps n where
    g: "generate_predictions ?P ?inp 3 = (Inr ps, n)"
    and d: "distinct ps" and l: "length ps = length (remdups ps)"
    and o: "\<forall>m tok ids. model ?P = Some m \<and> tokenizer ?P = Some tok \<and> encode tok ?inp = Inr ids
            \<longrightarrow> (\<exists>js. sorted_wrt (<) js
                  \<and> list_all (\<lambda>j. j < n \<and> \<not> isl (raw_attempt tok m ids j)) js
                  \<and> ps = map (\<lambda>j. clean_generated_text (projr (raw_attempt tok m ids j)) ?inp) js)
              \<and> ps = (if list_all (\<lambda>j. \<not> isl (raw_attempt tok m ids j)) [0..<n]
                       then py_take 3 (first_occurrences
                              (filter (\<lambda>c. accept_prediction c [])
                                 (map (\<lambda>j. clean_generated_text
                                              (projr (raw_attempt tok m ids j)) ?inp)
                                    [0..<n])))
                       else [])"
    by (elim exE conjE)
  from g ev have eq: "ps = ?r" and n4: "n = 4" by simp_all
  from d have d': "distinct ?r" unfolding eq .
  from l have l': "length ?r = length (remdups ?r)" unfolding eq .
  from o [rule_format, OF hyp, THEN conjunct2]
  have full: "?r = (if list_all (\<lambda>j. \<not> isl (?att j)) [0..<4]
              then py_take 3 (first_occurrences
                     (filter (\<lambda>c. accept_prediction c [])
                        (map (\<lambda>j. clean_generated_text (projr (?att j)) ?inp) [0..<4])))
              else [])"
    unfolding eq n4 .
  note o' = full [unfolded cleaned if_P [OF noraise]]
  show ?thesis by (intro conjI ev d' l' o')
qed

section \<open>Claim C2: attempts made after the target is reached\<close>

text \<open>
  Claim C2 at a request for one story. Both attempts of the budget return a text that
  gives an acceptable story. After the first attempt the loop of \<open>generate_stories\<close>
  holds the one story wanted, and the function still makes the second attempt before
  it returns that story. \<open>generate_predictions\<close> stops after the first attempt on a
  request of the same shape.
\<close>

theorem generate_stories_attempts_after_target:
  "stories_loop
     (story_attempt stub_tokenizer
        (Some (stub_lm
           [Inr '' there was a small village by the sea. Everyone there loved to fish. Life was calm'',
            Inr '' a young girl found a hidden door in the forest. She opened it slowly. Nothing'']))
        (map of_char ''Once upon a time''))
     ''Once upon a time'' 0 1 []
     = (Inr [''there was a small village by the sea. Everyone there loved to fish. Life was calm.''], 1)
   \<and> generate_stories ''Once upon a time''
       (Some (stub_lm
          [Inr '' there was a small village by the sea. Everyone there loved to fish. Life was calm'',
           Inr '' a young girl found a hidden door in the forest. She opened it slowly. Nothing'']))
       (Some stub_tokenizer) 1
     = (Inr [''there was a small village by the sea. Everyone there loved to fish. Life was calm.''], 2)
   \<and> generate_predictions
       (stub_predictor
          [Inr '' there was a small village by the sea. Everyone there loved to fish. Life was calm'',
           Inr '' a young girl found a hidden door in the forest. She opened it slowly. Nothing''])
       ''Once upon a time'' 1
     = (Inr [''there was a small village by the sea''], 1)"
proof (intro conjI)
  show "stories_loop
     (story_attempt stub_tokenizer
        (Some (stub_lm
           [Inr '' there was a small village by the sea. Everyone there loved to fish. Life was calm'',
            Inr '' a young girl found a hidden door in the forest. She opened it slowly. Nothing'']))
        (map of_char ''Once upon a time''))
     ''Once upon a time'' 0 1 []
     = (Inr [''there was a small village by the sea. Everyone there loved to fish. Life was calm.''], 1)"
    by code_simp
  show "generate_stories ''Once upon a time''
       (Some (stub_lm
          [Inr '' there was a small village by the sea. Everyone there loved to fish. Life was calm'',
           Inr '' a young girl found a hidden door in the forest. She opened it slowly. Nothing'']))
       (Some stub_tokenizer) 1
     = (Inr [''there was a small village by the sea. Everyone there loved to fish. Life was calm.''], 2)"
    by code_simp
  show "generate_predictions
       (stub_predictor
          [Inr '' there was a small village by the sea. Everyone there loved to fish. Life was calm'',
           Inr '' a young girl found a hidden door in the forest. She opened it slowly. Nothing''])
       ''Once upon a time'' 1
     = (Inr [''there was a small village by the sea''], 1)"
    by code_simp
qed

section \<open>Claim C3: removing the prompt\<close>

lemma py_startswith_iff: "py_startswith text p \<longleftrightarrow> (\<exists>rest. text = p @ rest)"
proof
  assume "py_startswith text p"
  then have "text = p @ drop (length p) text"
    by (metis append_take_drop_id py_startswith_def)
  then show "\<exists>rest. text = p @ rest" ..
next
  assume "\<exists>rest. text = p @ rest"
  then show "py_startswith text p" by (auto simp: py_startswith_def)
qed

text \<open>What lines 53 to 55 of the single-sentence filter do in the two cases.\<close>

lemma strip_prompt_present: "strip_prompt (p @ rest) p = py_strip rest"
  by (simp add: strip_prompt_def py_startswith_def)

lemma strip_prompt_absent: "\<not> py_startswith text p \<Longrightarrow> strip_prompt text p = text"
  by (simp add: strip_prompt_def)

text \<open>
  Claim C3 at a decoded text that does not start with the prompt (the tokenizer's
  decoding has removed the space before each punctuation mark of the prompt). The filter
  of single-sentence mode leaves the text whole. \<open>generate_stories\<close> cuts off as many
  characters as the prompt has, which takes the first letter of the continuation with it.
\<close>

theorem generate_stories_cuts_absent_prompt:
  "\<not> py_startswith
       ''Well, is it true? Yes it is. I saw it myself yesterday at the old market. Nobody else did''
       ''Well , is it true ?''
   \<and> strip_prompt
       ''Well, is it true? Yes it is. I saw it myself yesterday at the old market. Nobody else did''
       ''Well , is it true ?''
     = ''Well, is it true? Yes it is. I saw it myself yesterday at the old market. Nobody else did''
   \<and> story_text
       ''Well, is it true? Yes it is. I saw it myself yesterday at the old market. Nobody else did''
       ''Well , is it true ?''
     = Some ''es it is. I saw it myself yesterday at the old market. Nobody else did.''
   \<and> generate_stories ''Well , is it true ?''
       (Some \<lparr>generate = (\<lambda>i ids. Inr (map of_char
          ''Well, is it true? Yes it is. I saw it myself yesterday at the old market. Nobody else did''))\<rparr>)
       (Some stub_tokenizer) 1
     = (Inr [''es it is. I saw it myself yesterday at the old market. Nobody else did.''], 2)"
proof (intro conjI)
  show "\<not> py_startswith
       ''Well, is it true? Yes it is. I saw it myself yesterday at the old market. Nobody else did''
       ''Well , is it true ?''"
    by code_simp
  show "strip_prompt
       ''Well, is it true? Yes it is. I saw it myself yesterday at the old market. Nobody else did''
       ''Well , is it true ?''
     = ''Well, is it true? Yes it is. I saw it myself yesterday at the old market. Nobody else did''"
    by code_simp
  show "story_text
       ''Well, is it true? Yes it is. I saw it myself yesterday at the old market. Nobody else did''
       ''Well , is it true ?''
     = Some ''es it is. I saw it myself yesterday at the old market. Nobody else did.''"
    by code_simp
  show "generate_stories ''Well , is it true ?''
       (Some \<lparr>generate = (\<lambda>i ids. Inr (map of_char
          ''Well, is it true? Yes it is. I saw it myself yesterday at the old market. Nobody else did''))\<rparr>)
       (Some stub_tokenizer) 1
     = (Inr [''es it is. I saw it myself yesterday at the old market. Nobody else did.''], 2)"
    by code_simp
qed

section \<open>Claim C7: the filter of single-sentence mode\<close>

lemma re_split_hd_Cons: "re_split t = takeWhile (\<lambda>c. \<not> is_terminator c) t # tl (re_split t)"
  using re_split_not_Nil [of t] hd_re_split [of t] by (cases "re_split t") simp_all

lemma py_isalpha_word:
  "w \<in> set (py_split s) \<Longrightarrow> py_isalpha w = list_all is_alpha w"
  using py_split_no_empty_word [of s] by (auto simp: py_isalpha_def)

text \<open>
  The filter of single-sentence mode by cases on the text before the first terminator of
  the prompt-stripped text.
\<close>

lemma clean_generated_text_cases:
  "clean_generated_text text0 inp =
     (let text = strip_prompt text0 inp;
          s0 = takeWhile (\<lambda>c. \<not> is_terminator c) text;
          words = py_split s0
      in if py_strip s0 \<noteq> [] then
           py_join '' ''
             (if length (last words) < 2 \<or> \<not> list_all is_alpha (last words)
              then butlast words else words)
         else py_strip text)"
proof -
  let ?text = "strip_prompt text0 inp"
  let ?s0 = "takeWhile (\<lambda>c. \<not> is_terminator c) ?text"
  let ?words = "py_split ?s0"
  have split: "re_split ?text = ?s0 # tl (re_split ?text)" by (rule re_split_hd_Cons)
  show ?thesis
  proof (cases "py_strip ?s0 = []")
    case True
    then show ?thesis
      unfolding clean_generated_text_def Let_def by (subst split) simp
  next
    case False
    then have ne: "?words \<noteq> []" by (simp add: py_split_Nil_iff py_strip_Nil_iff)
    then have "last ?words \<in> set ?words" by simp
    then have al: "py_isalpha (last ?words) = list_all is_alpha (last ?words)"
      by (rule py_isalpha_word)
    from False ne al show ?thesis
      unfolding clean_generated_text_def Let_def
      by (subst split) (simp add: py_split_strip)
  qed
qed

text \<open>
  Claim C7, as the code has it. \<open>clean_generated_text\<close> looks at the first segment only,
  the text before the first terminator of the prompt-stripped text. When that segment is
  not blank, its last word is dropped if it has fewer than 2 characters or a
  non-alphabetic character, and the remaining words are joined by single spaces. When it
  is blank, the result is the whole prompt-stripped text, trimmed. A first segment that
  ends in \<open>br3ad\<close> gives \<open>buy milk and\<close>, and one that ends in \<open>bread\<close> keeps that word.
\<close>

theorem single_sentence_filter:
  "clean_generated_text text0 inp =
     (let text = strip_prompt text0 inp;
          s0 = takeWhile (\<lambda>c. \<not> is_terminator c) text;
          words = py_split s0
      in if py_strip s0 \<noteq> [] then
           py_join '' ''
             (if length (last words) < 2 \<or> \<not> list_all is_alpha (last words)
              then butlast words else words)
         else py_strip text)
   \<and> clean_generated_text
        ''I went to the store to buy milk and br3ad. Then I went home. It was raining.''
        ''I went to the store to'' = ''buy milk and''
   \<and> clean_generated_text
        ''I went to the store to buy milk and bread. Then I went home. It was raining.''
        ''I went to the store to'' = ''buy milk and bread''"
proof (intro conjI)
  show "clean_generated_text text0 inp =
     (let text = strip_prompt text0 inp;
          s0 = takeWhile (\<lambda>c. \<not> is_terminator c) text;
          words = py_split s0
      in if py_strip s0 \<noteq> [] then
           py_join '' ''
             (if length (last words) < 2 \<or> \<not> list_all is_alpha (last words)
              then butlast words else words)
         else py_strip text)"
    by (rule clean_generated_text_cases)
  show "clean_generated_text
        ''I went to the store to buy milk and br3ad. Then I went home. It was raining.''
        ''I went to the store to'' = ''buy milk and''"
    by code_simp
  show "clean_generated_text
        ''I went to the store to buy milk and bread. Then I went home. It was raining.''
        ''I went to the store to'' = ''buy milk and bread''"
    by code_simp
qed

text \<open>
  Claim C7 as stated fails where the first segment is empty: the continuation starts
  with a terminator, its first non-empty segment is \<open>and saw nothing there\<close>, and the
  filter returns the whole continuation with its terminators.
\<close>

theorem single_sentence_filter_counterexample:
  "clean_generated_text ''She opened the door... and saw nothing there'' ''She opened the door''
     = ''... and saw nothing there''
   \<and> spec_single_sentence
       (strip_prompt ''She opened the door... and saw nothing there'' ''She opened the door'')
     = ''and saw nothing there''"
  by code_simp

section \<open>Claim C4: terminators in the candidates of single-sentence mode\<close>

lemma space_not_terminator: "\<not> is_terminator CHR '' ''"
  by (simp add: is_terminator_def)

text \<open>With a first segment that is not blank, the cleaned text has no terminator.\<close>

lemma clean_generated_text_no_terminator:
  assumes "py_strip (takeWhile (\<lambda>x. \<not> is_terminator x) (strip_prompt text0 inp)) \<noteq> []"
  shows "list_all (\<lambda>x. \<not> is_terminator x) (clean_generated_text text0 inp)"
proof -
  let ?s0 = "takeWhile (\<lambda>x. \<not> is_terminator x) (strip_prompt text0 inp)"
  let ?words = "py_split ?s0"
  let ?kept = "if length (last ?words) < 2 \<or> \<not> list_all is_alpha (last ?words)
               then butlast ?words else ?words"
  have c: "clean_generated_text text0 inp = py_join '' '' ?kept"
    using assms by (simp add: clean_generated_text_cases Let_def)
  have kept: "set ?kept \<subseteq> set ?words" by (auto dest: in_set_butlastD)
  have nt: "\<not> is_terminator x" if "x \<in> set (py_join '' '' ?kept)" for x
  proof -
    from that set_py_join [of "'' ''" ?kept]
    have "x = CHR '' '' \<or> (\<exists>w \<in> set ?kept. x \<in> set w)" by auto
    then show ?thesis
    proof
      assume "x = CHR '' ''"
      then show ?thesis by (simp add: space_not_terminator)
    next
      assume "\<exists>w \<in> set ?kept. x \<in> set w"
      then obtain w where w: "w \<in> set ?kept" "x \<in> set w" by blast
      with kept have "w \<in> set ?words" by blast
      then have "set w \<subseteq> set ?s0" by (rule py_split_word_chars)
      with w(2) have "x \<in> set ?s0" by blast
      then show ?thesis by (rule set_takeWhileD [THEN conjunct2])
    qed
  qed
  have "\<forall>x \<in> set (py_join '' '' ?kept). \<not> is_terminator x"
    using nt by (intro ballI)
  then show ?thesis unfolding c list_all_iff .
qed

text \<open>
  Claim C4, as the code has it. Every candidate that \<open>generate_predictions\<close> returns is
  the cleaned text of a raw completion of an attempt made. When that completion has a
  first segment that is not blank, the candidate holds none of the terminators. When the
  first segment is blank, the candidate is the whole trimmed continuation.
\<close>

theorem single_sentence_candidates_terminators:
  assumes "generate_predictions self inp num = (Inr ps, n)" and "c \<in> set ps"
    and "model self = Some m" and "tokenizer self = Some tok" and "encode tok inp = Inr ids"
  shows "\<exists>j raw. j < n \<and> raw_attempt tok m ids j = Inr raw
           \<and> c = clean_generated_text raw inp
           \<and> (if py_strip (takeWhile (\<lambda>x. \<not> is_terminator x) (strip_prompt raw inp)) \<noteq> []
              then list_all (\<lambda>x. \<not> is_terminator x) c
              else c = py_strip (strip_prompt raw inp))"
proof -
  let ?att = "raw_attempt tok m ids"
  from generate_predictions_indices [OF assms(1) assms(3) assms(4) assms(5)]
  obtain js where js:
    "list_all (\<lambda>j. j < n \<and> \<not> isl (?att j)
        \<and> accept_prediction (clean_generated_text (projr (?att j)) inp) []) js"
    "ps = map (\<lambda>j. clean_generated_text (projr (?att j)) inp) js"
    by blast
  from assms(2) js(2) obtain j where j: "j \<in> set js"
    "c = clean_generated_text (projr (?att j)) inp" by auto
  from j(1) js(1) have jn: "j < n" and ni: "\<not> isl (?att j)" by (auto simp: list_all_iff)
  from ni obtain raw where raw: "?att j = Inr raw" by (cases "?att j") auto
  with j(2) have c: "c = clean_generated_text raw inp" by simp
  have "if py_strip (takeWhile (\<lambda>x. \<not> is_terminator x) (strip_prompt raw inp)) \<noteq> []
        then list_all (\<lambda>x. \<not> is_terminator x) c
        else c = py_strip (strip_prompt raw inp)"
  proof (cases "py_strip (takeWhile (\<lambda>x. \<not> is_terminator x) (strip_prompt raw inp)) = []")
    case True
    then show ?thesis unfolding c by (simp add: clean_generated_text_cases Let_def)
  next
    case False
    then show ?thesis unfolding c by (simp add: clean_generated_text_no_terminator)
  qed
  with jn raw c show ?thesis by blast
qed

theorem single_sentence_candidates_terminators_witness:
  "generate_predictions (stub_predictor [Inr '' buy milk and bread. Then I went home.''])
     ''I went to the store to'' 1 = (Inr [''buy milk and bread''], 1)
   \<and> (\<exists>j raw. j < 1
        \<and> raw_attempt stub_tokenizer (stub_lm [Inr '' buy milk and bread. Then I went home.''])
             (map of_char ''I went to the store to'') j = Inr raw
        \<and> ''buy milk and bread'' = clean_generated_text raw ''I went to the store to''
        \<and> (if py_strip (takeWhile (\<lambda>x. \<not> is_terminator x)
                          (strip_prompt raw ''I went to the store to'')) \<noteq> []
            then list_all (\<lambda>x. \<not> is_terminator x) ''buy milk and bread''
            else ''buy milk and bread'' = py_strip (strip_prompt raw ''I went to the store to'')))"
proof -
  let ?script = "[Inr '' buy milk and bread. Then I went home.'']"
  let ?P = "stub_predictor ?script"
  have ev: "generate_predictions ?P ''I went to the store to'' 1
            = (Inr [''buy milk and bread''], 1)"
    by code_simp
  have mem: "''buy milk and bread'' \<in> set [''buy milk and bread'']" by simp
  have a: "model ?P = Some (stub_lm ?script)" by (simp add: stub_predictor_def)
  have b: "tokenizer ?P = Some stub_tokenizer" by (simp add: stub_predictor_def)
  have c: "encode stub_tokenizer ''I went to the store to''
           = Inr (map of_char ''I went to the store to'')"
    by (simp add: stub_tokenizer_def)
  note ex = single_sentence_candidates_terminators [OF ev mem a b c]
  show ?thesis by (intro conjI ev ex)
qed

text \<open>
  Claim C4 as stated fails: a continuation that starts with a terminator has an empty
  first segment, the filter returns the whole continuation, and the orchestrator accepts
  it with its terminators.
\<close>

theorem single_sentence_candidates_terminators_counterexample:
  "generate_predictions (stub_predictor [Inr ''... and then he went home''])
     ''The cat sat'' 1 = (Inr [''... and then he went home''], 1)
   \<and> is_terminator (hd ''... and then he went home'')"
  by code_simp

section \<open>Claim C5: the prompt at the front of a candidate\<close>

lemma clean_generated_text_echo:
  "clean_generated_text (p @ rest) p = clean_generated_text rest []"
  by (simp add: clean_generated_text_def strip_prompt_def py_startswith_def)

lemma story_text_echo: "story_text (p @ rest) p = story_text rest []"
  by (simp add: story_text_def)

text \<open>
  Claim C5, as the code has it. Every candidate returned in either mode is the filter's
  result on the raw completion of an attempt made. When that completion is the prompt
  followed by a continuation, one leading copy of the prompt is removed and the candidate
  is what the filter gives for the continuation alone. It begins with the prompt only
  when that filtered continuation does.
\<close>

theorem echoed_prompt_removed_once:
  "(\<forall>ps n m tok ids c.
      generate_predictions self inp num = (Inr ps, n) \<and> c \<in> set ps
      \<and> model self = Some m \<and> tokenizer self = Some tok \<and> encode tok inp = Inr ids
      \<longrightarrow> (\<exists>j raw. j < n \<and> raw_attempt tok m ids j = Inr raw
             \<and> c = clean_generated_text raw inp
             \<and> (\<forall>rest. raw = inp @ rest \<longrightarrow> c = clean_generated_text rest [])))
   \<and> (\<forall>ss n tok ids s.
      generate_stories inp mo tko num = (Inr ss, n) \<and> s \<in> set ss
      \<and> tko = Some tok \<and> encode tok inp = Inr ids
      \<longrightarrow> (\<exists>j raw. j < n \<and> story_attempt tok mo ids j = Inr raw
             \<and> story_text raw inp = Some s
             \<and> (\<forall>rest. raw = inp @ rest \<longrightarrow> story_text rest [] = Some s)))"
proof (intro conjI allI impI)
  fix ps n m tok ids c
  assume h: "generate_predictions self inp num = (Inr ps, n) \<and> c \<in> set ps
      \<and> model self = Some m \<and> tokenizer self = Some tok \<and> encode tok inp = Inr ids"
  let ?att = "raw_attempt tok m ids"
  from h have g: "generate_predictions self inp num = (Inr ps, n)" and mem: "c \<in> set ps"
    and h1: "model self = Some m" and h2: "tokenizer self = Some tok"
    and h3: "encode tok inp = Inr ids" by blast+
  from generate_predictions_indices [OF g h1 h2 h3]
  obtain js where js:
    "list_all (\<lambda>j. j < n \<and> \<not> isl (?att j)
        \<and> accept_prediction (clean_generated_text (projr (?att j)) inp) []) js"
    "ps = map (\<lambda>j. clean_generated_text (projr (?att j)) inp) js"
    by blast
  from mem js(2) obtain j where j: "j \<in> set js"
    "c = clean_generated_text (projr (?att j)) inp" by auto
  from j(1) js(1) have jn: "j < n" and ni: "\<not> isl (?att j)" by (auto simp: list_all_iff)
  from ni obtain raw where raw: "?att j = Inr raw" by (cases "?att j") auto
  with j(2) have c: "c = clean_generated_text raw inp" by simp
  have "\<forall>rest. raw = inp @ rest \<longrightarrow> c = clean_generated_text rest []"
    unfolding c by (simp add: clean_generated_text_echo)
  with jn raw c
  show "\<exists>j raw. j < n \<and> raw_attempt tok m ids j = Inr raw
             \<and> c = clean_generated_text raw inp
             \<and> (\<forall>rest. raw = inp @ rest \<longrightarrow> c = clean_generated_text rest [])"
    by blast
next
  fix ss n tok ids s
  assume h: "generate_stories inp mo tko num = (Inr ss, n) \<and> s \<in> set ss
      \<and> tko = Some tok \<and> encode tok inp = Inr ids"
  let ?att = "story_attempt tok mo ids"
  from h have g: "generate_stories inp mo tko num = (Inr ss, n)" and mem: "s \<in> set ss"
    and h1: "tko = Some tok" and h2: "encode tok inp = Inr ids" by blast+
  from generate_stories_indices [OF g h1 h2]
  obtain js where js:
    "list_all (\<lambda>j. j < n \<and> \<not> isl (?att j)
              \<and> story_text (projr (?att j)) inp \<noteq> None
              \<and> 50 < length (the (story_text (projr (?att j)) inp))) js"
    "ss = map (\<lambda>j. the (story_text (projr (?att j)) inp)) js"
    by blast
  from mem js(2) obtain j where j: "j \<in> set js"
    "s = the (story_text (projr (?att j)) inp)" by auto
  from j(1) js(1) have jn: "j < n" and ni: "\<not> isl (?att j)"
    and some: "story_text (projr (?att j)) inp \<noteq> None" by (auto simp: list_all_iff)
  from ni obtain raw where raw: "?att j = Inr raw" by (cases "?att j") auto
  with j(2) some have st: "story_text raw inp = Some s" by auto
  have "\<forall>rest. raw = inp @ rest \<longrightarrow> story_text rest [] = Some s"
    using st by (auto simp: story_text_echo)
  with jn raw st
  show "\<exists>j raw. j < n \<and> story_attempt tok mo ids j = Inr raw
             \<and> story_text raw inp = Some s
             \<and> (\<forall>rest. raw = inp @ rest \<longrightarrow> story_text rest [] = Some s)"
    by blast
qed

theorem echoed_prompt_removed_once_witness:
  "generate_predictions (stub_predictor [Inr '' see the new shop there. It was closed''])
     ''I went to the store to'' 1 = (Inr [''see the new shop there''], 1)
   \<and> (\<exists>j raw. j < 1
        \<and> raw_attempt stub_tokenizer (stub_lm [Inr '' see the new shop there. It was closed''])
             (map of_char ''I went to the store to'') j = Inr raw
        \<and> ''see the new shop there'' = clean_generated_text raw ''I went to the store to''
        \<and> (\<forall>rest. raw = ''I went to the store to'' @ rest
               \<longrightarrow> ''see the new shop there'' = clean_generated_text rest []))"
proof -
  let ?script = "[Inr '' see the new shop there. It was closed'']"
  let ?P = "stub_predictor ?script"
  have ev: "generate_predictions ?P ''I went to the store to'' 1
            = (Inr [''see the new shop there''], 1)"
    by code_simp
  have mem: "''see the new shop there'' \<in> set [''see the new shop there'']" by simp
  have a: "model ?P = Some (stub_lm ?script)" by (simp add: stub_predictor_def)
  have b: "tokenizer ?P = Some stub_tokenizer" by (simp add: stub_predictor_def)
  have c: "encode stub_tokenizer ''I went to the store to''
           = Inr (map of_char ''I went to the store to'')"
    by (simp add: stub_tokenizer_def)
  have hyp: "generate_predictions ?P ''I went to the store to'' 1
               = (Inr [''see the new shop there''], 1)
      \<and> ''see the new shop there'' \<in> set [''see the new shop there'']
      \<and> model ?P = Some (stub_lm ?script) \<and> tokenizer ?P = Some stub_tokenizer
      \<and> encode stub_tokenizer ''I went to the store to''
           = Inr (map of_char ''I went to the store to'')"
    by (intro conjI ev mem a b c)
  note inst = echoed_prompt_removed_once
      [where self = ?P and inp = "''I went to the store to''" and num = 1, THEN conjunct1,
       rule_format, OF hyp]
  show ?thesis by (intro conjI ev inst)
qed

text \<open>
  Claim C5 as stated fails: when the continuation repeats the prompt, the candidate
  returned begins with the prompt.
\<close>

theorem echoed_prompt_counterexample:
  "generate_predictions (stub_predictor [Inr '' the cat sat on the mat. It purred''])
     ''the cat'' 1 = (Inr [''the cat sat on the mat''], 1)
   \<and> py_startswith ''the cat sat on the mat'' ''the cat''"
  by code_simp

section \<open>Claim C8: the filter of story mode\<close>

lemma length_filter_take_le: "length (filter P (take k xs)) \<le> length (filter P xs)"
proof -
  have "filter P xs = filter P (take k xs) @ filter P (drop k xs)"
    by (metis append_take_drop_id filter_append)
  then show ?thesis by simp
qed

text \<open>
  Claim C8, as the code has it. Story mode keeps the segments that are not blank among
  the first 4 terminator-delimited segments of the prompt-stripped text, each trimmed;
  it goes on only with at least 2 of them, and the story is these segments joined by a
  period and a space, with a period at the end. A raw completion whose text has at most
  1 segment that is not blank gives no story and leaves the list of stories as it was.
\<close>

theorem story_filter:
  "story_text generated_text inp =
     (let new_text = py_strip (drop (length inp) generated_text);
          story_sentences =
            map py_strip (filter (\<lambda>s. py_strip s \<noteq> []) (take 4 (re_split new_text)))
      in if 2 \<le> length story_sentences
         then Some (py_join ''. '' story_sentences @ ''.'') else None)
   \<and> (length (filter (\<lambda>s. py_strip s \<noteq> [])
                 (re_split (py_strip (drop (length inp) generated_text)))) \<le> 1
        \<longrightarrow> story_text generated_text inp = None
            \<and> stories_step generated_text inp stories = stories)"
proof (intro conjI impI)
  let ?new = "py_strip (drop (length inp) generated_text)"
  let ?P = "\<lambda>s. py_strip s \<noteq> []"
  have short: "length (filter ?P (take 4 (re_split ?new))) < 2"
    if "\<not> 2 \<le> length (re_split ?new)"
  proof -
    have "length (filter ?P (take 4 (re_split ?new))) \<le> length (take 4 (re_split ?new))"
      by (rule length_filter_le)
    also have "\<dots> \<le> length (re_split ?new)" by simp
    finally have "length (filter ?P (take 4 (re_split ?new))) \<le> length (re_split ?new)" .
    with that show ?thesis by linarith
  qed
  show cases: "story_text generated_text inp =
     (let new_text = py_strip (drop (length inp) generated_text);
          story_sentences =
            map py_strip (filter (\<lambda>s. py_strip s \<noteq> []) (take 4 (re_split new_text)))
      in if 2 \<le> length story_sentences
         then Some (py_join ''. '' story_sentences @ ''.'') else None)"
  proof (cases "2 \<le> length (re_split ?new)")
    case True
    then show ?thesis by (simp add: story_text_def Let_def)
  next
    case False
    from short [OF False] False show ?thesis by (simp add: story_text_def Let_def)
  qed
  assume one: "length (filter ?P (re_split ?new)) \<le> 1"
  have "length (filter ?P (take 4 (re_split ?new))) \<le> length (filter ?P (re_split ?new))"
    by (rule length_filter_take_le)
  with one have "\<not> 2 \<le> length (filter ?P (take 4 (re_split ?new)))" by simp
  then show none: "story_text generated_text inp = None"
    unfolding cases by (simp add: Let_def)
  then show "stories_step generated_text inp stories = stories"
    by (simp add: stories_step_def)
qed

theorem story_filter_witness:
  "length (filter (\<lambda>s. py_strip s \<noteq> [])
            (re_split (py_strip (drop (length ''Once upon a time'')
                                   ''Once upon a time there was a dragon.'')))) \<le> 1
   \<and> story_text ''Once upon a time there was a dragon.'' ''Once upon a time'' = None
   \<and> stories_step ''Once upon a time there was a dragon.'' ''Once upon a time'' [] = []"
proof -
  have one: "length (filter (\<lambda>s. py_strip s \<noteq> [])
            (re_split (py_strip (drop (length ''Once upon a time'')
                                   ''Once upon a time there was a dragon.'')))) \<le> 1"
    by code_simp
  note inst = story_filter
      [where generated_text = "''Once upon a time there was a dragon.''"
         and inp = "''Once upon a time''" and stories = "[]",
       THEN conjunct2, rule_format, OF one]
  show ?thesis by (intro conjI one inst [THEN conjunct1] inst [THEN conjunct2])
qed

text \<open>
  Claim C8 as stated fails where one of the first 4 segments is empty: the continuation
  starts with a terminator, so the code keeps 3 sentences, while the first 4 non-empty
  segments are 4 sentences.
\<close>

theorem story_filter_counterexample:
  "story_text
     ''Then she said... Nothing at all happened that day. The rain kept falling on the roof. We waited inside. Nobody came. The end''
     ''Then she said''
     = Some ''Nothing at all happened that day. The rain kept falling on the roof. We waited inside.''
   \<and> spec_story_text
       (py_strip (drop (length ''Then she said'')
          ''Then she said... Nothing at all happened that day. The rain kept falling on the roof. We waited inside. Nobody came. The end''))
     = Some ''Nothing at all happened that day. The rain kept falling on the roof. We waited inside. Nobody came.''"
  by code_simp

end
